theory Spec2Isabelle
  imports Main "HOL-Library.AList" "HOL-Library.Char_ord" "HOL-Library.List_Lexorder"
begin

section \<open>JavaScript objects and the store\<close>

text \<open>
  A trie node is a plain JavaScript object used as a property bag (source lines 13-27):
  the property \<open>''''\<close> is the terminal flag, a property holding \<open>1\<close> is an inline
  terminal, a property holding an object is an edge, and the names \<open>_c\<close>, \<open>_d\<close>,
  \<open>_v\<close>, \<open>_g\<close> hold bookkeeping. Nodes are shared after \<open>combineSuffixNode\<close>, so
  objects live in a store indexed by addresses. Strings are lists of code units; the type
  \<open>char\<close> has 256 values, so the words of the model are those over the code units below 256.
\<close>

datatype val = Num nat | Obj nat | Str string | Undef

type_synonym obj = "(string \<times> val) list"

text \<open>Reading a property: an absent property reads as \<open>undefined\<close>.\<close>

definition getProp :: "obj \<Rightarrow> string \<Rightarrow> val" where
  "getProp ob k = (case map_of ob k of None \<Rightarrow> Undef | Some v \<Rightarrow> v)"

text \<open>JavaScript truthiness, as used by \<open>if (node._c)\<close> and \<open>!!node['''']\<close>.\<close>

fun truthy :: "val \<Rightarrow> bool" where
  "truthy (Num n) = (n \<noteq> 0)"
| "truthy (Obj a) = True"
| "truthy (Str s) = (s \<noteq> [])"
| "truthy Undef = False"

fun isObject :: "val \<Rightarrow> bool" where
  "isObject (Obj a) = True"
| "isObject v = False"

fun isNumber :: "val \<Rightarrow> bool" where
  "isNumber (Num n) = True"
| "isNumber v = False"

text \<open>
  Own property names in the order of \<open>Object.keys\<close> and \<open>for ... in\<close>: first the names
  that are array indices, in ascending numeric order, then the other names in insertion
  order. The association list keeps insertion order: \<open>AList.update\<close> overwrites an
  existing name in place and appends a new one, \<open>AList.delete\<close> removes a name.
\<close>

definition isDigit :: "char \<Rightarrow> bool" where
  "isDigit c = (48 \<le> (of_char c :: nat) \<and> (of_char c :: nat) \<le> 57)"

definition numOf :: "string \<Rightarrow> nat" where
  "numOf k = foldl (\<lambda>n c. 10 * n + ((of_char c :: nat) - 48)) 0 k"

definition isArrayIndex :: "string \<Rightarrow> bool" where
  "isArrayIndex k =
     (k \<noteq> [] \<and> list_all isDigit k \<and> (k = ''0'' \<or> hd k \<noteq> CHR ''0'') \<and> numOf k < 4294967295)"

definition jsKeys :: "obj \<Rightarrow> string list" where
  "jsKeys ob =
     sort_key numOf (filter isArrayIndex (map fst ob)) @
     filter (\<lambda>k. \<not> isArrayIndex k) (map fst ob)"

text \<open>
  The builder (constructor, source lines 33-43). \<open>heap\<close> is the store of node objects and
  \<open>nextAddr\<close> the next unused address; an address that was never allocated holds the
  empty object. \<open>suffixes\<close> is the signature registry, an object used as a dictionary.
\<close>

record trie =
  heap :: "nat \<Rightarrow> obj"
  nextAddr :: nat
  root :: nat
  lastWord :: string
  suffixes :: "(string \<times> nat) list"
  cNext :: nat
  wordCount :: nat
  vCur :: nat

definition newTrie :: trie where
  "newTrie = \<lparr> heap = (\<lambda>a. []), nextAddr = 1, root = 0, lastWord = [],
               suffixes = [], cNext = 1, wordCount = 0, vCur = 0 \<rparr>"

text \<open>\<open>let next = {}\<close>: a fresh empty object.\<close>

definition newObject :: "trie \<Rightarrow> nat \<times> trie" where
  "newObject s = (nextAddr s, s\<lparr> heap := (heap s)(nextAddr s := []), nextAddr := Suc (nextAddr s) \<rparr>)"

text \<open>\<open>node[k] = v\<close> and \<open>delete node[k]\<close>.\<close>

definition setProp :: "nat \<Rightarrow> string \<Rightarrow> val \<Rightarrow> trie \<Rightarrow> trie" where
  "setProp a k v s = s\<lparr> heap := (heap s)(a := AList.update k v (heap s a)) \<rparr>"

definition delProp :: "nat \<Rightarrow> string \<Rightarrow> trie \<Rightarrow> trie" where
  "delProp a k s = s\<lparr> heap := (heap s)(a := AList.delete k (heap s a)) \<rparr>"

section \<open>The builder\<close>

text \<open>
  Modelled from the spec: \<open>fns.commonPrefix\<close> (the module \<open>fns\<close> is not among the
  sources): the longest shared prefix of two strings.
\<close>

fun commonPrefix :: "string \<Rightarrow> string \<Rightarrow> string" where
  "commonPrefix (x # xs) (y # ys) = (if x = y then x # commonPrefix xs ys else [])"
| "commonPrefix xs ys = []"

text \<open>\<open>addTerminal\<close> (source lines 109-117).\<close>

fun addTerminal :: "nat \<Rightarrow> string \<Rightarrow> trie \<Rightarrow> trie" where
  "addTerminal node prop s =
     (if length prop \<le> 1 then setProp node prop (Num 1) s
      else (case newObject s of (next, s1) \<Rightarrow>
              addTerminal next (tl prop) (setProp node [hd prop] (Obj next) s1)))"

declare addTerminal.simps [simp del]

text \<open>
  \<open>_insert\<close> (source lines 71-101). The loop over \<open>Object.keys(node)\<close> skips every name
  that shares no prefix with the word and returns in the first iteration that does not skip,
  so it acts on the first name with a non-empty common prefix.
\<close>

lemma commonPrefix_length: "length (commonPrefix w p) \<le> length w"
  by (induction w p rule: commonPrefix.induct) auto

function insert_at :: "string \<Rightarrow> nat \<Rightarrow> trie \<Rightarrow> trie" where
  "insert_at word node s =
     (case find (\<lambda>prop. commonPrefix word prop \<noteq> []) (jsKeys (heap s node)) of
        None \<Rightarrow> (addTerminal node word s)\<lparr> wordCount := Suc (wordCount s) \<rparr>
      | Some prop \<Rightarrow>
          (let prefix = commonPrefix word prop; v = getProp (heap s node) prop in
           if prop = prefix \<and> isObject v then
             (case v of Obj child \<Rightarrow> insert_at (drop (length prefix) word) child s | _ \<Rightarrow> s)
           else if prop = word \<and> isNumber v then s
           else (case newObject s of (next, s1) \<Rightarrow>
                   let s2 = setProp next (drop (length prefix) prop) v s1;
                       s3 = addTerminal next (drop (length prefix) word) s2;
                       s4 = delProp node prop s3;
                       s5 = setProp node prefix (Obj next) s4
                   in s5\<lparr> wordCount := Suc (wordCount s5) \<rparr>)))"
  by pat_completeness auto
termination
proof (relation "measure (\<lambda>(w, n, s). length w)")
  show "wf (measure (\<lambda>(w, n, s). length w))" by simp
next
  fix word :: string and node :: nat and s :: trie and x2 x xa x1
  assume "find (\<lambda>prop. commonPrefix word prop \<noteq> []) (jsKeys (heap s node)) = Some x2"
    and "x = commonPrefix word x2"
  then have "x \<noteq> []" by (auto simp: find_Some_iff)
  moreover have "length x \<le> length word" using \<open>x = commonPrefix word x2\<close> commonPrefix_length by simp
  ultimately show "((drop (length x) word, x1, s), word, node, s) \<in> measure (\<lambda>(w, n, s). length w)"
    by (cases word) auto
qed

declare insert_at.simps [simp del]

text \<open>
  \<open>nodeProps\<close> (source lines 122-133): the sorted names that are neither \<open>''''\<close> nor
  start with an underscore; with \<open>nodesOnly\<close>, only those holding an object.
\<close>

definition nodeProps :: "obj \<Rightarrow> bool \<Rightarrow> string list" where
  "nodeProps ob nodesOnly =
     sort (filter (\<lambda>prop. prop \<noteq> [] \<and> hd prop \<noteq> CHR ''_'' \<and>
                          (\<not> nodesOnly \<or> isObject (getProp ob prop))) (jsKeys ob))"

text \<open>\<open>isTerminal\<close> (source lines 237-239).\<close>

definition isTerminal :: "obj \<Rightarrow> bool" where
  "isTerminal ob = truthy (getProp ob [])"

text \<open>\<open>isFragment\<close> (source lines 241-258) and \<open>isWord\<close> (lines 233-235).\<close>

function isFragment :: "(nat \<Rightarrow> obj) \<Rightarrow> string \<Rightarrow> nat \<Rightarrow> bool" where
  "isFragment h word node =
     (if length word = 0 then isTerminal (h node)
      else if getProp (h node) word = Num 1 then True
      else (case find (\<lambda>prop. prop = take (length prop) word) (nodeProps (h node) True) of
              None \<Rightarrow> False
            | Some prop \<Rightarrow>
                (case getProp (h node) prop of
                   Obj child \<Rightarrow> isFragment h (drop (length prop) word) child
                 | _ \<Rightarrow> False)))"
  by pat_completeness auto
termination
proof (relation "measure (\<lambda>(h, w, n). length w)")
  show "wf (measure (\<lambda>(h, w, n). length w))" by simp
next
  fix h :: "nat \<Rightarrow> obj" and word :: string and node :: nat and x2 x1
  assume "length word \<noteq> 0"
    and "find (\<lambda>prop. prop = take (length prop) word) (nodeProps (h node) True) = Some x2"
  then have "x2 \<in> set (nodeProps (h node) True)" by (auto simp: find_Some_iff)
  then have "x2 \<noteq> []" by (auto simp: nodeProps_def)
  with \<open>length word \<noteq> 0\<close>
  show "((h, drop (length x2) word, x1), h, word, node) \<in> measure (\<lambda>(h, w, n). length w)"
    by (cases word; cases x2) auto
qed

declare isFragment.simps [simp del]

definition isWord :: "trie \<Rightarrow> string \<Rightarrow> bool" where
  "isWord s word = isFragment (heap s) word (root s)"


text \<open>
  \<open>uniqueNode\<close> (source lines 262-276). \<open>None\<close> is the \<open>undefined\<close> returned when no
  edge label is a prefix of the word.
\<close>

function uniqueNode :: "(nat \<Rightarrow> obj) \<Rightarrow> string \<Rightarrow> string \<Rightarrow> nat \<Rightarrow> val" where
  "uniqueNode h word other node =
     (case find (\<lambda>prop. prop = take (length prop) word) (nodeProps (h node) True) of
        None \<Rightarrow> Undef
      | Some prop \<Rightarrow>
          if prop \<noteq> take (length prop) other then getProp (h node) prop
          else (case getProp (h node) prop of
                  Obj child \<Rightarrow> uniqueNode h (drop (length prop) word) (drop (length prop) other) child
                | _ \<Rightarrow> Undef))"
  by pat_completeness auto
termination
proof (relation "measure (\<lambda>(h, w, ot, n). length w)")
  show "wf (measure (\<lambda>(h, w, ot, n). length w))" by simp
next
  fix h :: "nat \<Rightarrow> obj" and word other :: string and node :: nat and x2 x1
  assume f: "find (\<lambda>prop. prop = take (length prop) word) (nodeProps (h node) True) = Some x2"
  then have "x2 \<in> set (nodeProps (h node) True)" and t: "x2 = take (length x2) word"
    by (auto simp: find_Some_iff)
  then have "x2 \<noteq> []" by (auto simp: nodeProps_def)
  with t have "word \<noteq> []" by auto
  with \<open>x2 \<noteq> []\<close>
  show "((h, drop (length x2) word, drop (length x2) other, x1), h, word, other, node)
          \<in> measure (\<lambda>(h, w, ot, n). length w)"
    by (cases word; cases x2) auto
qed

declare uniqueNode.simps [simp del]

section \<open>The canonicalizer\<close>

text \<open>
  Conversions used when the signature is joined (\<open>Array.prototype.join\<close> turns
  \<open>undefined\<close> into the empty string) and when a value is appended to a string.
\<close>

fun decimal :: "nat \<Rightarrow> string" where
  "decimal n = (if n < 10 then [''0123456789'' ! n] else decimal (n div 10) @ [''0123456789'' ! (n mod 10)])"

declare decimal.simps [simp del]

fun toStr :: "val \<Rightarrow> string" where
  "toStr (Num n) = decimal n"
| "toStr (Str s) = s"
| "toStr (Obj a) = ''[object Object]''"
| "toStr Undef = ''undefined''"

fun joinElem :: "val \<Rightarrow> string" where
  "joinElem Undef = []"
| "joinElem v = toStr v"

fun join :: "string list \<Rightarrow> string" where
  "join [] = []"
| "join [x] = x"
| "join (x # y # ys) = x @ ''-'' @ join (y # ys)"

text \<open>
  \<open>combineSuffixNode\<close> (source lines 144-175). The recursion follows the edges of the
  store and need not end (an unfrozen node that reaches itself is entered again and again),
  so the function takes fuel: \<open>None\<close> means that the call did not return within it.
  \<open>combineLoop\<close> is the loop of lines 156-165, carrying the signature built so far.
\<close>

fun combineSuffixNode :: "nat \<Rightarrow> nat \<Rightarrow> trie \<Rightarrow> (nat \<times> trie) option"
  and combineLoop :: "nat \<Rightarrow> nat \<Rightarrow> string list \<Rightarrow> string list \<Rightarrow> trie \<Rightarrow> (string list \<times> trie) option"
where
  "combineSuffixNode 0 node s = None"
| "combineSuffixNode (Suc n) node s =
     (if truthy (getProp (heap s node) ''_c'') then Some (node, s)
      else (case combineLoop n node (nodeProps (heap s node) False)
                   (if isTerminal (heap s node) then [''!''] else []) s of
              None \<Rightarrow> None
            | Some (sig, s1) \<Rightarrow>
                (case map_of (suffixes s1) (join sig) of
                   Some shared \<Rightarrow> Some (shared, s1)
                 | None \<Rightarrow>
                     Some (node, setProp node ''_c'' (Num (cNext s1))
                                   (s1\<lparr> suffixes := AList.update (join sig) node (suffixes s1),
                                        cNext := Suc (cNext s1) \<rparr>)))))"
| "combineLoop n node [] sig s = Some (sig, s)"
| "combineLoop n node (prop # props) sig s =
     (case getProp (heap s node) prop of
        Obj child \<Rightarrow>
          (case combineSuffixNode n child s of
             None \<Rightarrow> None
           | Some (c, s1) \<Rightarrow>
               combineLoop n node props
                 (sig @ [prop, joinElem (getProp (heap s1 c) ''_c'')])
                 (setProp node prop (Obj c) s1))
      | _ \<Rightarrow> combineLoop n node props (sig @ [prop]) s)"

text \<open>
  \<open>insert\<close> (source lines 55-69). The source has no \<open>throw\<close>: a call returns (\<open>Some\<close>)
  or does not finish (\<open>None\<close>, when the canonicalizer does not). The node returned by
  \<open>combineSuffixNode\<close> is dropped, as in the source.
\<close>

definition insert_word :: "nat \<Rightarrow> string \<Rightarrow> trie \<Rightarrow> trie option" where
  "insert_word fuel word s =
     (let s1 = insert_at word (root s) s;
          last = lastWord s1;
          s2 = s1\<lparr> lastWord := word \<rparr>
      in if commonPrefix word last = last then Some s2
         else (case uniqueNode (heap s2) last word (root s2) of
                 Obj freeze \<Rightarrow> map_option snd (combineSuffixNode fuel freeze s2)
               | _ \<Rightarrow> Some s2))"

text \<open>The loop of \<open>insertWords\<close> (source lines 50-52).\<close>

fun insertWords :: "nat \<Rightarrow> string list \<Rightarrow> trie \<Rightarrow> trie option" where
  "insertWords fuel [] s = Some s"
| "insertWords fuel (w # ws) s =
     (case insert_word fuel w s of None \<Rightarrow> None | Some s1 \<Rightarrow> insertWords fuel ws s1)"

section \<open>The optimizer\<close>

text \<open>\<open>prepDFS\<close> and \<open>visited\<close> (source lines 177-187).\<close>

definition prepDFS :: "trie \<Rightarrow> trie" where
  "prepDFS s = s\<lparr> vCur := Suc (vCur s) \<rparr>"

definition visited :: "nat \<Rightarrow> trie \<Rightarrow> bool \<times> trie" where
  "visited node s =
     (if getProp (heap s node) ''_v'' = Num (vCur s) then (True, s)
      else (False, setProp node ''_v'' (Num (vCur s)) s))"

text \<open>
  \<open>countDegree\<close> (source lines 189-201), with fuel for the recursion along the edges.
  \<open>_d\<close> is only ever written here, so it is \<open>undefined\<close> or a number. The names in
  \<open>props\<close> hold objects; reading \<open>_d\<close> of anything else would be a type error, which
  is \<open>None\<close> as well.
\<close>

definition incDegree :: "nat \<Rightarrow> trie \<Rightarrow> trie" where
  "incDegree node s =
     setProp node ''_d'' (case getProp (heap s node) ''_d'' of Num d \<Rightarrow> Num (Suc d) | _ \<Rightarrow> Num 1) s"

fun countDegree :: "nat \<Rightarrow> nat \<Rightarrow> trie \<Rightarrow> trie option"
  and countLoop :: "nat \<Rightarrow> nat \<Rightarrow> string list \<Rightarrow> trie \<Rightarrow> trie option"
where
  "countDegree 0 node s = None"
| "countDegree (Suc n) node s =
     (case visited node (incDegree node s) of
        (True, s1) \<Rightarrow> Some s1
      | (False, s1) \<Rightarrow> countLoop n node (nodeProps (heap s1 node) True) s1)"
| "countLoop n node [] s = Some s"
| "countLoop n node (prop # props) s =
     (case getProp (heap s node) prop of
        Obj child \<Rightarrow>
          (case countDegree n child s of None \<Rightarrow> None | Some s1 \<Rightarrow> countLoop n node props s1)
      | _ \<Rightarrow> None)"

text \<open>
  \<open>collapseChains\<close> (source lines 204-231), with fuel. \<open>collapseLoop\<close> is the loop of
  lines 213-226; it carries the variable \<open>prop\<close>, which line 229 reads after the loop.
  \<open>isHoistable\<close> is the test of line 221 on the child.
\<close>

definition isHoistable :: "obj \<Rightarrow> bool" where
  "isHoistable child =
     (getProp child ''_g'' \<noteq> Undef \<and>
      (getProp child ''_d'' = Num 1 \<or>
       (case getProp child ''_g'' of Str t \<Rightarrow> length t = 1 | _ \<Rightarrow> False)))"

fun collapseChains :: "nat \<Rightarrow> nat \<Rightarrow> trie \<Rightarrow> trie option"
  and collapseLoop :: "nat \<Rightarrow> nat \<Rightarrow> string list \<Rightarrow> val \<Rightarrow> trie \<Rightarrow> (val \<times> trie) option"
where
  "collapseChains 0 node s = None"
| "collapseChains (Suc n) node s =
     (case visited node s of
        (True, s1) \<Rightarrow> Some s1
      | (False, s1) \<Rightarrow>
          (let props = nodeProps (heap s1 node) False in
           case collapseLoop n node props Undef s1 of
             None \<Rightarrow> None
           | Some (prop, s2) \<Rightarrow>
               Some (if length props = 1 \<and> \<not> isTerminal (heap s2 node)
                     then setProp node ''_g'' prop s2 else s2)))"
| "collapseLoop n node [] pv s = Some (pv, s)"
| "collapseLoop n node (prop # props) pv s =
     (case getProp (heap s node) prop of
        Obj child \<Rightarrow>
          (case collapseChains n child s of
             None \<Rightarrow> None
           | Some s1 \<Rightarrow>
               (let g = getProp (heap s1 child) ''_g'' in
                if isHoistable (heap s1 child)
                then (let s2 = delProp node prop s1;
                          prop2 = prop @ toStr g
                      in collapseLoop n node props (Str prop2)
                           (setProp node prop2 (getProp (heap s2 child) (toStr g)) s2))
                else collapseLoop n node props (Str prop) s1))
      | _ \<Rightarrow> collapseLoop n node props (Str prop) s)"

text \<open>
  \<open>optimize\<close> (source lines 135-141). \<open>beforeCollapse\<close> is lines 136-139: the state in
  which \<open>collapseChains\<close> is called at line 140.
\<close>

definition beforeCollapse :: "nat \<Rightarrow> trie \<Rightarrow> trie option" where
  "beforeCollapse fuel s =
     (case combineSuffixNode fuel (root s) s of
        None \<Rightarrow> None
      | Some (r, s1) \<Rightarrow>
          (case countDegree fuel (root s1) (prepDFS s1) of
             None \<Rightarrow> None
           | Some s2 \<Rightarrow> Some (prepDFS s2)))"

definition optimize :: "nat \<Rightarrow> trie \<Rightarrow> trie option" where
  "optimize fuel s =
     (case beforeCollapse fuel s of
        None \<Rightarrow> None
      | Some s3 \<Rightarrow> collapseChains fuel (root s3) s3)"

section \<open>Notions used by the properties\<close>

text \<open>
  The entries of a node are the names listed by \<open>nodeProps\<close>: edge labels and inline
  terminals. A node is prefix-free when no two entries start with the same code unit.
\<close>

definition prefixFree :: "obj \<Rightarrow> bool" where
  "prefixFree ob =
     (distinct (nodeProps ob False) \<and>
      (\<forall>k1\<in>set (nodeProps ob False). \<forall>k2\<in>set (nodeProps ob False). hd k1 = hd k2 \<longrightarrow> k1 = k2))"

text \<open>
  The graph that the traversals follow: the children of a node are the targets of the names
  that \<open>nodeProps(node, true)\<close> lists, so a property that holds a node under a name
  starting with an underscore is not among them. A node is reachable from the root along
  these edges; the in-degree field is \<open>_d\<close> (absent counts as 0).
\<close>

definition children :: "obj \<Rightarrow> nat list" where
  "children ob =
     concat (map (\<lambda>p. case getProp ob p of Obj c \<Rightarrow> [c] | _ \<Rightarrow> []) (nodeProps ob True))"

definition edgeRel :: "(nat \<Rightarrow> obj) \<Rightarrow> (nat \<times> nat) set" where
  "edgeRel h = {(a, c). c \<in> set (children (h a))}"

definition reachable :: "(nat \<Rightarrow> obj) \<Rightarrow> nat \<Rightarrow> nat set" where
  "reachable h r = (edgeRel h)\<^sup>* `` {r}"

definition inDegree :: "obj \<Rightarrow> nat" where
  "inDegree ob = (case getProp ob ''_d'' of Num d \<Rightarrow> d | _ \<Rightarrow> 0)"

definition degreeSum :: "(nat \<Rightarrow> obj) \<Rightarrow> nat \<Rightarrow> nat" where
  "degreeSum h r = (\<Sum>a\<in>reachable h r. inDegree (h a))"

definition edgeCount :: "(nat \<Rightarrow> obj) \<Rightarrow> nat \<Rightarrow> nat" where
  "edgeCount h r = (\<Sum>a\<in>reachable h r. length (children (h a)))"

text \<open>
  A singleton as line 228 tests it: \<open>nodeProps\<close> lists exactly one name (an edge or an
  inline terminal; names starting with an underscore are not counted) and the terminal flag
  is not set.
\<close>

definition singletonNode :: "obj \<Rightarrow> string \<Rightarrow> bool" where
  "singletonNode ob g = (nodeProps ob False = [g] \<and> \<not> isTerminal ob)"

subsection \<open>Invariants of the insert phase\<close>

text \<open>
  While words are inserted every property name is empty, a single code unit, or the
  canonical id \<open>_c\<close>; while the inserted words have no underscore, every value other than
  the id is 1 or, under a nonempty name, a child.
\<close>

definition keysOK :: "obj \<Rightarrow> bool" where
  "keysOK ob = (distinct (map fst ob) \<and> (\<forall>k\<in>fst ` set ob. length k \<le> 1 \<or> k = ''_c''))"

definition insertInv :: "trie \<Rightarrow> bool" where
  "insertInv s = (\<forall>a. keysOK (heap s a))"

definition valuesOK :: "obj \<Rightarrow> bool" where
  "valuesOK ob =
     (\<forall>k v. map_of ob k = Some v \<longrightarrow> k \<noteq> ''_c'' \<longrightarrow> (v = Num 1 \<or> (k \<noteq> [] \<and> isObject v)))"

definition cleanInv :: "trie \<Rightarrow> bool" where
  "cleanInv s = (insertInv s \<and> (\<forall>a. valuesOK (heap s a)))"

subsection \<open>Steps that only touch bookkeeping fields\<close>

text \<open>
  A store is well keyed when every object has distinct property names and prefix-free
  entries. A hidden step changes only properties from a set of names that start with an
  underscore.
\<close>

definition wellKeyed :: "(nat \<Rightarrow> obj) \<Rightarrow> bool" where
  "wellKeyed h = (\<forall>a. distinct (map fst (h a)) \<and> prefixFree (h a))"

definition hiddenKeys :: "string set \<Rightarrow> bool" where
  "hiddenKeys ks = (\<forall>k\<in>ks. k \<noteq> [] \<and> hd k = CHR ''_'')"

definition hiddenStep :: "string set \<Rightarrow> trie \<Rightarrow> trie \<Rightarrow> bool" where
  "hiddenStep ks s s' =
     (vCur s' = vCur s \<and> root s' = root s \<and> nextAddr s' = nextAddr s \<and>
      (\<forall>b. (distinct (map fst (heap s b)) \<longrightarrow> distinct (map fst (heap s' b))) \<and>
           (\<forall>f. nodeProps (heap s' b) f = nodeProps (heap s b) f) \<and>
           (\<forall>k. k \<notin> ks \<longrightarrow> getProp (heap s' b) k = getProp (heap s b) k)))"

abbreviation countKeys :: "string set" where
  "countKeys \<equiv> {''_d'', ''_v''}"

subsection \<open>The depth-first passes\<close>

text \<open>
  The nodes stamped with a visit epoch, what a depth-first pass from a list of start nodes
  has done to the in-degree fields, and the targets of a list of entries.
\<close>

definition visitedSet :: "(nat \<Rightarrow> obj) \<Rightarrow> nat \<Rightarrow> nat set" where
  "visitedSet h v = {a. getProp (h a) ''_v'' = Num v}"

definition dfsResult :: "nat list \<Rightarrow> trie \<Rightarrow> trie \<Rightarrow> bool" where
  "dfsResult cs s s' =
     (visitedSet (heap s) (vCur s) \<subseteq> visitedSet (heap s') (vCur s) \<and>
      set cs \<subseteq> visitedSet (heap s') (vCur s) \<and>
      finite (visitedSet (heap s') (vCur s) - visitedSet (heap s) (vCur s)) \<and>
      (\<forall>x\<in>visitedSet (heap s') (vCur s) - visitedSet (heap s) (vCur s).
          set (children (heap s x)) \<subseteq> visitedSet (heap s') (vCur s) \<and>
          (\<exists>c\<in>set cs. (c, x) \<in> (edgeRel (heap s))\<^sup>*)) \<and>
      (\<forall>b. inDegree (heap s' b) =
            inDegree (heap s b) + count_list cs b +
            (\<Sum>x\<in>visitedSet (heap s') (vCur s) - visitedSet (heap s) (vCur s).
                count_list (children (heap s x)) b)))"

definition targets :: "obj \<Rightarrow> string list \<Rightarrow> nat list" where
  "targets ob props = concat (map (\<lambda>p. case getProp ob p of Obj c \<Rightarrow> [c] | _ \<Rightarrow> []) props)"

subsection \<open>Words without underscore\<close>

text \<open>
  A clean word has no underscore; a label matches a word when it is a prefix of it (the
  test of source lines 253 and 266).
\<close>

definition clean :: "string \<Rightarrow> bool" where
  "clean w = (CHR ''_'' \<notin> set w)"

definition matches :: "string \<Rightarrow> string \<Rightarrow> bool" where
  "matches p w = (p = take (length p) w)"

subsection \<open>The invariant of \<open>collapseChains\<close>\<close>

text \<open>
  A node is tagged when it carries \<open>_g\<close>. The invariant, the frame (visited nodes outside
  a set keep their objects), and the equality of the accepted clean words.
\<close>

definition tagged :: "obj \<Rightarrow> bool" where
  "tagged ob = (getProp ob ''_g'' \<noteq> Undef)"

definition collapseInv :: "trie \<Rightarrow> bool" where
  "collapseInv s =
     (wellKeyed (heap s) \<and>
      (\<forall>c. tagged (heap s c) \<longrightarrow>
           c \<in> visitedSet (heap s) (vCur s) \<and>
           singletonNode (heap s c) (toStr (getProp (heap s c) ''_g''))))"

definition langEq :: "(nat \<Rightarrow> obj) \<Rightarrow> (nat \<Rightarrow> obj) \<Rightarrow> bool" where
  "langEq h h' = (\<forall>w b. clean w \<longrightarrow> isFragment h' w b = isFragment h w b)"

definition frameExcept :: "nat set \<Rightarrow> trie \<Rightarrow> trie \<Rightarrow> bool" where
  "frameExcept A s s' =
     (vCur s' = vCur s \<and> root s' = root s \<and>
      visitedSet (heap s) (vCur s) \<subseteq> visitedSet (heap s') (vCur s) \<and>
      (\<forall>b\<in>visitedSet (heap s) (vCur s). b \<notin> A \<longrightarrow> heap s' b = heap s b))"

definition hiddenSame :: "nat \<Rightarrow> trie \<Rightarrow> trie \<Rightarrow> bool" where
  "hiddenSame a s s' =
     (\<forall>k. k = [] \<or> hd k = CHR ''_'' \<longrightarrow> getProp (heap s' a) k = getProp (heap s a) k)"

definition collapseOK :: "nat set \<Rightarrow> trie \<Rightarrow> trie \<Rightarrow> bool" where
  "collapseOK A s s' = (collapseInv s' \<and> frameExcept A s s' \<and> langEq (heap s) (heap s'))"

definition loopPost :: "nat \<Rightarrow> string list \<Rightarrow> val \<Rightarrow> trie \<Rightarrow> val \<Rightarrow> trie \<Rightarrow> bool" where
  "loopPost node props pv s pv' s' =
     (collapseOK {node} s s' \<and> hiddenSame node s s' \<and>
      length (nodeProps (heap s' node) False) = length (nodeProps (heap s node) False) \<and>
      (props = [] \<longrightarrow> pv' = pv \<and> s' = s) \<and>
      (props \<noteq> [] \<longrightarrow> (\<exists>q. pv' = Str q \<and> q \<in> set (nodeProps (heap s' node) False))))"

subsection \<open>The children that \<open>collapseChains\<close> fuses\<close>

text \<open>
  \<open>collapseChains\<close> once more, returning in addition the children it fused into their
  parents (lines 222-224), each as it was at that moment, in the order of fusion. The store
  it returns is that of \<open>collapseChains\<close>.
\<close>

fun collapseChainsLog :: "nat \<Rightarrow> nat \<Rightarrow> trie \<Rightarrow> (trie \<times> obj list) option"
  and collapseLoopLog :: "nat \<Rightarrow> nat \<Rightarrow> string list \<Rightarrow> val \<Rightarrow> trie \<Rightarrow> (val \<times> trie \<times> obj list) option"
where
  "collapseChainsLog 0 node s = None"
| "collapseChainsLog (Suc n) node s =
     (case visited node s of
        (True, s1) \<Rightarrow> Some (s1, [])
      | (False, s1) \<Rightarrow>
          (let props = nodeProps (heap s1 node) False in
           case collapseLoopLog n node props Undef s1 of
             None \<Rightarrow> None
           | Some (prop, s2, fused) \<Rightarrow>
               Some (if length props = 1 \<and> \<not> isTerminal (heap s2 node)
                     then setProp node ''_g'' prop s2 else s2, fused)))"
| "collapseLoopLog n node [] pv s = Some (pv, s, [])"
| "collapseLoopLog n node (prop # props) pv s =
     (case getProp (heap s node) prop of
        Obj child \<Rightarrow>
          (case collapseChainsLog n child s of
             None \<Rightarrow> None
           | Some (s1, fused1) \<Rightarrow>
               (let g = getProp (heap s1 child) ''_g'' in
                if isHoistable (heap s1 child)
                then (let s2 = delProp node prop s1;
                          prop2 = prop @ toStr g
                      in case collapseLoopLog n node props (Str prop2)
                                (setProp node prop2 (getProp (heap s2 child) (toStr g)) s2) of
                           None \<Rightarrow> None
                         | Some (pv2, s3, fused2) \<Rightarrow> Some (pv2, s3, fused1 @ heap s1 child # fused2))
                else (case collapseLoopLog n node props (Str prop) s1 of
                        None \<Rightarrow> None
                      | Some (pv2, s3, fused2) \<Rightarrow> Some (pv2, s3, fused1 @ fused2))))
      | _ \<Rightarrow> collapseLoopLog n node props (Str prop) s)"

definition fusedOK :: "obj \<Rightarrow> bool" where
  "fusedOK child = (\<exists>g. singletonNode child g \<and> (getProp child ''_d'' = Num 1 \<or> length g = 1))"

subsection \<open>Paths of words\<close>



text \<open>The first element at which one list leaves the other.\<close>

fun firstDivergence :: "'a list \<Rightarrow> 'a list \<Rightarrow> 'a option" where
  "firstDivergence [] ys = None"
| "firstDivergence (x # xs) [] = Some x"
| "firstDivergence (x # xs) (y # ys) = (if x = y then firstDivergence xs ys else Some x)"

subsection \<open>Concrete stores\<close>

text \<open>
  A store whose allocated objects are listed by address. Updates of such a store are
  updates of the list, which lets the simplifier run the builder on concrete words.
\<close>

definition mkHeap :: "obj list \<Rightarrow> nat \<Rightarrow> obj" where
  "mkHeap xs a = (if a < length xs then xs ! a else [])"

text \<open>The builder after the single word \<open>ab\<close>, and the same after lines 136-139.\<close>

definition trie_ab :: trie where
  "trie_ab = \<lparr> heap = mkHeap [[(''a'', Obj 1)], [(''b'', Num 1)]], nextAddr = Suc (Suc 0), root = 0,
               lastWord = ''ab'', suffixes = [], cNext = 1, wordCount = 1, vCur = 0 \<rparr>"

definition trie_ab_counted :: trie where
  "trie_ab_counted =
     \<lparr> heap = mkHeap [[(''a'', Obj 1), (''_c'', Num (Suc (Suc 0))), (''_d'', Num 1), (''_v'', Num 1)],
                      [(''b'', Num 1), (''_c'', Num 1), (''_d'', Num 1), (''_v'', Num 1)]],
       nextAddr = Suc (Suc 0), root = 0, lastWord = ''ab'', suffixes = [(''b'', 1), (''a-1'', 0)],
       cNext = Suc (Suc (Suc 0)), wordCount = 1, vCur = Suc (Suc 0) \<rparr>"

text \<open>The builder after the first insert of \<open>w\<close> into a fresh builder.\<close>

definition firstInsert :: "string \<Rightarrow> trie" where
  "firstInsert w = addTerminal 0 w (newTrie\<lparr> wordCount := 1, lastWord := w \<rparr>)"

subsection \<open>All properties of a node\<close>

text \<open>
  The bookkeeping fields of the source's header comment (lines 22-27). A node is
  \<open>hiddenOK\<close> when the properties that \<open>nodeProps\<close> hides are only the terminal flag and
  bookkeeping fields, none of them holding a node; then \<open>nodeProps\<close> lists every entry and every
  edge of the node.
\<close>

definition bookkeeping :: "string set" where
  "bookkeeping = {''_c'', ''_n'', ''_d'', ''_v'', ''_g''}"

definition hiddenOK :: "obj \<Rightarrow> bool" where
  "hiddenOK ob =
     (\<forall>k v. map_of ob k = Some v \<longrightarrow> k = [] \<or> hd k = CHR ''_'' \<longrightarrow>
            (k = [] \<or> k \<in> bookkeeping) \<and> \<not> isObject v)"

definition storeOK :: "trie \<Rightarrow> bool" where
  "storeOK s = (\<forall>a. hiddenOK (heap s a))"

text \<open>
  The graph of all edges: the targets of all own properties of a node that hold a node,
  whatever their names, in the order of \<open>Object.keys\<close>; reachability, the sum of the
  in-degree fields and the number of edges over this graph.
\<close>

definition allChildren :: "obj \<Rightarrow> nat list" where
  "allChildren ob = targets ob (jsKeys ob)"

definition allEdgeRel :: "(nat \<Rightarrow> obj) \<Rightarrow> (nat \<times> nat) set" where
  "allEdgeRel h = {(a, c). c \<in> set (allChildren (h a))}"

definition allReachable :: "(nat \<Rightarrow> obj) \<Rightarrow> nat \<Rightarrow> nat set" where
  "allReachable h r = (allEdgeRel h)\<^sup>* `` {r}"

definition allDegreeSum :: "(nat \<Rightarrow> obj) \<Rightarrow> nat \<Rightarrow> nat" where
  "allDegreeSum h r = (\<Sum>a\<in>allReachable h r. inDegree (h a))"

definition allEdgeCount :: "(nat \<Rightarrow> obj) \<Rightarrow> nat \<Rightarrow> nat" where
  "allEdgeCount h r = (\<Sum>a\<in>allReachable h r. length (allChildren (h a)))"

text \<open>
  The entries of a node: the names of all its own properties other than the terminal flag
  and the bookkeeping fields.
\<close>

definition entryNames :: "obj \<Rightarrow> string set" where
  "entryNames ob = {k \<in> fst ` set ob. k \<noteq> [] \<and> k \<notin> bookkeeping}"

section \<open>Evaluating concrete stores\<close>

lemma mkHeap_empty: "(\<lambda>a. []) = mkHeap [[]]"
  by (auto simp: mkHeap_def fun_eq_iff)

lemma mkHeap_upd: "a < length xs \<Longrightarrow> (mkHeap xs)(a := ob) = mkHeap (xs[a := ob])"
  by (auto simp: mkHeap_def fun_eq_iff)

lemma mkHeap_new: "a = length xs \<Longrightarrow> (mkHeap xs)(a := ob) = mkHeap (xs @ [ob])"
  by (auto simp: mkHeap_def fun_eq_iff nth_append)

lemma mkHeap_get: "a < length xs \<Longrightarrow> mkHeap xs a = xs ! a"
  by (simp add: mkHeap_def)

lemmas ev_obj = jsKeys_def isArrayIndex_def isDigit_def numOf_def getProp_def nodeProps_def
  isTerminal_def setProp_def delProp_def newObject_def Let_def
  mkHeap_empty mkHeap_upd mkHeap_new mkHeap_get

lemmas ev_build = ev_obj newTrie_def insert_word_def insert_at.simps addTerminal.simps
  uniqueNode.simps decimal.simps

lemmas ev_query = isFragment.simps isWord_def

lemmas ev_opt = optimize_def beforeCollapse_def prepDFS_def visited_def incDegree_def isHoistable_def
  combineSuffixNode.simps combineLoop.simps countDegree.simps countLoop.simps
  collapseChains.simps collapseLoop.simps

section \<open>Basic facts about objects\<close>

lemma newTrie_fields [simp]:
  "heap newTrie = (\<lambda>a. [])" "nextAddr newTrie = 1" "root newTrie = 0" "lastWord newTrie = []"
  "suffixes newTrie = []" "cNext newTrie = 1" "wordCount newTrie = 0" "vCur newTrie = 0"
  by (simp_all add: newTrie_def)

lemma set_jsKeys: "set (jsKeys ob) = fst ` set ob"
  by (auto simp: jsKeys_def)

lemma set_nodeProps:
  "set (nodeProps ob b) =
     {k \<in> fst ` set ob. k \<noteq> [] \<and> hd k \<noteq> CHR ''_'' \<and> (\<not> b \<or> isObject (getProp ob k))}"
  by (auto simp: nodeProps_def set_jsKeys)

lemma nodeProps_hidden:
  assumes "\<And>k. k \<in> fst ` set ob \<Longrightarrow> k = [] \<or> hd k = CHR ''_''"
  shows "nodeProps ob b = []"
proof -
  have "set (nodeProps ob b) = {}" using assms by (auto simp: set_nodeProps)
  then show ?thesis by simp
qed

section \<open>Frame properties of \<open>addTerminal\<close>\<close>

lemma addTerminal_fields:
  "root (addTerminal node w s) = root s \<and> lastWord (addTerminal node w s) = lastWord s \<and>
   suffixes (addTerminal node w s) = suffixes s \<and> cNext (addTerminal node w s) = cNext s \<and>
   wordCount (addTerminal node w s) = wordCount s \<and> vCur (addTerminal node w s) = vCur s"
proof (induction node w s rule: addTerminal.induct)
  case (1 node p s)
  show ?case
  proof (cases "length p \<le> 1")
    case True
    then show ?thesis by (simp add: addTerminal.simps [of node p s] setProp_def)
  next
    case False
    with 1 [OF False, of "nextAddr s" "snd (newObject s)"] show ?thesis
      by (simp add: addTerminal.simps [of node p s] setProp_def newObject_def)
  qed
qed

lemma addTerminal_nextAddr: "nextAddr s \<le> nextAddr (addTerminal node w s)"
proof (induction node w s rule: addTerminal.induct)
  case (1 node p s)
  show ?case
  proof (cases "length p \<le> 1")
    case True
    then show ?thesis by (simp add: addTerminal.simps [of node p s] setProp_def)
  next
    case False
    with 1 [OF False, of "nextAddr s" "snd (newObject s)"] show ?thesis
      by (simp add: addTerminal.simps [of node p s] setProp_def newObject_def)
  qed
qed

lemma addTerminal_heap_other:
  "a \<noteq> node \<Longrightarrow> a < nextAddr s \<Longrightarrow> heap (addTerminal node w s) a = heap s a"
proof (induction node w s rule: addTerminal.induct)
  case (1 node p s)
  show ?case
  proof (cases "length p \<le> 1")
    case True
    with 1(2) show ?thesis by (simp add: addTerminal.simps [of node p s] setProp_def)
  next
    case False
    have "heap (addTerminal (nextAddr s) (tl p)
                 (setProp node [hd p] (Obj (nextAddr s)) (snd (newObject s)))) a
          = heap (setProp node [hd p] (Obj (nextAddr s)) (snd (newObject s))) a"
      using 1(1) [OF False, of "nextAddr s" "snd (newObject s)"] 1(2,3)
      by (simp add: setProp_def newObject_def)
    with False 1(2,3) show ?thesis
      by (simp add: addTerminal.simps [of node p s] setProp_def newObject_def)
  qed
qed

text \<open>
  A word of two or more code units is stored under its first code unit, as an edge to a
  fresh node; the rest of the node is untouched.
\<close>

lemma addTerminal_heap_node_long:
  assumes "length w \<ge> 2" and "node < nextAddr s"
  shows "heap (addTerminal node w s) node = AList.update [hd w] (Obj (nextAddr s)) (heap s node)"
proof -
  let ?s2 = "setProp node [hd w] (Obj (nextAddr s)) (snd (newObject s))"
  have "addTerminal node w s = addTerminal (nextAddr s) (tl w) ?s2"
    using assms(1) by (simp add: addTerminal.simps [of node w s] newObject_def)
  moreover have "heap (addTerminal (nextAddr s) (tl w) ?s2) node = heap ?s2 node"
    using assms(2) by (intro addTerminal_heap_other) (auto simp: setProp_def newObject_def)
  ultimately show ?thesis using assms(2) by (simp add: setProp_def newObject_def)
qed

section \<open>The first insert\<close>

text \<open>
  On a fresh builder \<open>lastWord\<close> is empty, so line 61 returns before any node is frozen:
  the first \<open>insert\<close> is \<open>_insert\<close> at the root followed by the update of \<open>lastWord\<close>.
\<close>

lemma insert_first:
  "insert_word fuel w newTrie = Some ((insert_at w 0 newTrie)\<lparr> lastWord := w \<rparr>)"
proof -
  have "lastWord (insert_at w 0 newTrie) = []"
    by (subst insert_at.simps) (simp add: jsKeys_def addTerminal_fields)
  moreover have "commonPrefix w [] = []" by (cases w) auto
  ultimately show ?thesis by (simp add: insert_word_def Let_def)
qed

text \<open>
  Claim C5, as stated, fails: \<open>insert\<close> has no validation and no \<open>throw\<close>. The word
  \<open>a;,!\<close>, which contains the separator and terminal-marker characters of the packed
  format, is accepted by a fresh builder and is a member afterwards.
\<close>

theorem insert_reserved_counterexample:
  "map_option (\<lambda>s. isWord s ''a;,!'') (insert_word 0 ''a;,!'' newTrie) = Some True"
  by (simp add: ev_build ev_query)

text \<open>
  Claim C9: after building from the single empty word, the root has the terminal flag,
  \<open>isWord\<close> of the empty word is true and \<open>isWord\<close> of \<open>x\<close> is false (indeed only the
  empty word is a member), and the same three facts hold after \<open>optimize\<close>.
\<close>

theorem empty_word_marks_root:
  "(case insertWords fuel [[]] newTrie of
      None \<Rightarrow> False
    | Some s \<Rightarrow>
        isTerminal (heap s (root s)) \<and> isWord s [] \<and> \<not> isWord s ''x'' \<and>
        (\<forall>w. isWord s w = (w = [])) \<and>
        (case optimize (Suc 0) s of
           None \<Rightarrow> False
         | Some t \<Rightarrow> isTerminal (heap t (root t)) \<and> isWord t [] \<and> \<not> isWord t ''x''))"
  apply (simp add: ev_build)
  apply (simp add: ev_build ev_opt ev_query)
  done

text \<open>
  Claim C10: a word of length at least two that starts with an underscore is accepted by
  \<open>insert\<close> on a fresh builder, and \<open>isWord\<close> of that word is false right afterwards:
  the word is stored under the name \<open>_\<close>, which \<open>nodeProps\<close> hides.
\<close>

theorem underscore_word_not_found:
  assumes "2 \<le> length w" and "hd w = CHR ''_''"
  shows "\<exists>s. insert_word fuel w newTrie = Some s \<and> \<not> isWord s w"
proof -
  let ?s = "insert_at w 0 newTrie"
  have ia: "?s = (addTerminal 0 w newTrie)\<lparr> wordCount := Suc 0 \<rparr>"
    by (subst insert_at.simps) (simp add: jsKeys_def)
  have "heap ?s 0 = heap (addTerminal 0 w newTrie) 0" by (simp add: ia)
  also have "\<dots> = [([CHR ''_''], Obj 1)]"
    using addTerminal_heap_node_long [OF assms(1), of 0 newTrie] assms(2) by simp
  finally have h0: "heap ?s 0 = [([CHR ''_''], Obj 1)]" .
  have r: "root ?s = 0" by (simp add: ia addTerminal_fields)
  have np: "\<And>v. nodeProps [([CHR ''_''], v)] True = []"
    by (rule nodeProps_hidden) auto
  have "w \<noteq> [CHR ''_'']" using assms(1) by auto
  then have "\<not> isFragment (heap ?s) w 0"
    using assms(1) by (subst isFragment.simps) (auto simp: h0 np getProp_def)
  then show ?thesis by (simp add: insert_first isWord_def r)
qed

theorem underscore_word_not_found_witness:
  "2 \<le> length ''_a'' \<and> hd ''_a'' = CHR ''_'' \<and>
   (\<exists>s. insert_word 0 ''_a'' newTrie = Some s \<and> \<not> isWord s ''_a'')"
  using underscore_word_not_found [of "''_a''" 0] by simp

section \<open>Concrete runs\<close>

text \<open>
  Claim C1, as stated, fails for a query that names a bookkeeping field. After building from
  the word \<open>a\<close> and running lines 136-139, the root carries \<open>_v = 1\<close>, so line 246 answers
  true for the query \<open>_v\<close>; \<open>collapseChains\<close> stamps the root with the new epoch 2 and
  the same query is false afterwards.
\<close>

theorem collapse_membership_counterexample:
  "(case insertWords 0 [''a''] newTrie of
      None \<Rightarrow> False
    | Some s \<Rightarrow>
       (case beforeCollapse (Suc 0) s of
          None \<Rightarrow> False
        | Some s3 \<Rightarrow>
           (case collapseChains (Suc 0) (root s3) s3 of
              None \<Rightarrow> False
            | Some s4 \<Rightarrow> isWord s3 ''_v'' \<and> \<not> isWord s4 ''_v'')))"
  by (simp add: ev_build ev_opt ev_query)

text \<open>
  Claim C2 fails on the code: the signature of line 166 is ambiguous. After the sorted
  inserts \<open>00c\<close>, \<open>10\<close>, \<open>11\<close>, \<open>2\<close> the node under \<open>1\<close> (address 3, inline terminals
  \<open>0\<close> and \<open>1\<close>) and the node under \<open>0\<close> (address 1, one edge \<open>0\<close> to the node with
  canonical id 1) both have the signature \<open>0-1\<close>. \<open>combineSuffixNode\<close> of the former
  returns the latter, which does not contain \<open>0\<close>; after \<open>optimize\<close> the inserted word
  \<open>10\<close> is no longer a member and \<open>10c\<close>, never inserted, is one.
\<close>

theorem combine_signature_collision:
  "(case insertWords (Suc (Suc (Suc 0))) [''00c'', ''10'', ''11'', ''2''] newTrie of
      None \<Rightarrow> False
    | Some s \<Rightarrow>
       (case combineSuffixNode (Suc 0) 3 s of
          None \<Rightarrow> False
        | Some (r, t) \<Rightarrow>
            getProp (heap s (root s)) ''1'' = Obj 3 \<and> r = 1 \<and>
            isFragment (heap s) ''0'' 3 \<and> \<not> isFragment (heap t) ''0'' r) \<and>
       (case optimize (Suc (Suc (Suc 0))) s of
          None \<Rightarrow> False
        | Some t \<Rightarrow>
            isWord s ''10'' \<and> \<not> isWord t ''10'' \<and> \<not> isWord s ''10c'' \<and> isWord t ''10c''))"
  by (simp add: ev_build ev_opt ev_query)

lemma all_reach_one_edge:
  assumes "allEdgeRel h = {(0, Suc 0)}"
  shows "allReachable h 0 = {0, Suc 0}"
proof -
  have "(0, x) \<in> {(0::nat, Suc 0)}\<^sup>* \<Longrightarrow> x = 0 \<or> x = Suc 0" for x
    by (induction rule: rtrancl_induct) auto
  then show ?thesis using assms by (auto simp: allReachable_def)
qed

text \<open>
  Claim C3, as stated, is off by one: \<open>countDegree\<close> also counts its own call on the root.
  After building from \<open>ab\<close> the store has two reachable nodes and one edge, and the
  in-degree fields add up to 2.
\<close>

theorem degree_sum_counterexample:
  "(case insertWords 0 [''ab''] newTrie of
      None \<Rightarrow> False
    | Some s \<Rightarrow>
       (case beforeCollapse (Suc (Suc 0)) s of
          None \<Rightarrow> False
        | Some s3 \<Rightarrow> allDegreeSum (heap s3) (root s3) = 2 \<and> allEdgeCount (heap s3) (root s3) = 1))"
proof -
  let ?o0 = "[(''a'', Obj (Suc 0)), (''_c'', Num (Suc (Suc 0))), (''_d'', Num (Suc 0)), (''_v'', Num (Suc 0))]"
  let ?o1 = "[(''b'', Num (Suc 0)), (''_c'', Num (Suc 0)), (''_d'', Num (Suc 0)), (''_v'', Num (Suc 0))]"
  let ?h = "mkHeap [?o0, ?o1]"
  have c0: "allChildren ?o0 = [Suc 0]" by (simp add: allChildren_def targets_def ev_obj)
  have c1: "allChildren ?o1 = []" by (simp add: allChildren_def targets_def ev_obj)
  have c2: "allChildren [] = []" by (simp add: allChildren_def targets_def ev_obj)
  have "allChildren (?h a) = (if a = 0 then [Suc 0] else [])" for a
    using c0 c1 c2 by (cases "a = 0"; cases "a = Suc 0") (auto simp: mkHeap_def)
  then have "allEdgeRel ?h = {(0, Suc 0)}"
    by (auto simp: allEdgeRel_def split: if_splits)
  then have r: "allReachable ?h 0 = {0, Suc 0}" by (rule all_reach_one_edge)
  have d: "allDegreeSum ?h 0 = 2" "allEdgeCount ?h 0 = 1"
    by (simp_all add: allDegreeSum_def allEdgeCount_def r c0 c1 inDegree_def mkHeap_get getProp_def)
  show ?thesis
    apply (simp add: ev_build)
    apply (simp add: ev_build ev_opt)
    apply (simp add: d)
    done
qed

text \<open>
  Claim C4, as stated, fails: line 228 counts inline terminals as well as edges. After
  building from \<open>ab\<close> the child under \<open>a\<close> has no edge and the inline terminal \<open>b\<close>;
  \<open>collapseChains\<close> fuses it into the root, which then holds the inline terminal \<open>ab\<close>.
\<close>

theorem fuse_inline_terminal_counterexample:
  "(case insertWords 0 [''ab''] newTrie of
      None \<Rightarrow> False
    | Some s \<Rightarrow>
       (case beforeCollapse (Suc (Suc 0)) s of
          None \<Rightarrow> False
        | Some s3 \<Rightarrow>
           (case collapseChains (Suc (Suc 0)) (root s3) s3 of
              None \<Rightarrow> False
            | Some s4 \<Rightarrow>
                getProp (heap s3 (root s3)) ''a'' = Obj 1 \<and>
                nodeProps (heap s3 1) True = [] \<and>
                nodeProps (heap s3 1) False = [''b''] \<and>
                getProp (heap s4 (root s4)) ''a'' = Undef \<and>
                getProp (heap s4 (root s4)) ''ab'' = Num 1)))"
  by (simp add: ev_build ev_opt ev_query)

text \<open>
  Claim C8, as stated, fails when the duplicate arrives after words that were not inserted
  in sorted order. After \<open>xab\<close>, \<open>y\<close>, \<open>xac\<close>, \<open>zdb\<close> the word \<open>xab\<close> is a member and
  \<open>zdc\<close> is not; inserting \<open>xab\<close> again freezes the branch of \<open>zdb\<close>, whose node is
  replaced by the registered node of signature \<open>b\<close>, to which \<open>xac\<close> had added \<open>c\<close>
  after it was registered: \<open>zdc\<close> becomes a member.
\<close>

theorem duplicate_insert_counterexample:
  "(case insertWords (Suc (Suc 0)) [''xab'', ''y'', ''xac'', ''zdb''] newTrie of
      None \<Rightarrow> False
    | Some s \<Rightarrow>
       (case insert_word (Suc (Suc 0)) ''xab'' s of
          None \<Rightarrow> False
        | Some t \<Rightarrow> isWord s ''xab'' \<and> \<not> isWord s ''zdc'' \<and> isWord t ''zdc''))"
  by (simp add: ev_build ev_opt ev_query)

section \<open>Objects\<close>

lemma getProp_update [simp]:
  "getProp (AList.update k v ob) k' = (if k' = k then v else getProp ob k')"
  by (simp add: getProp_def AList.update_conv')

lemma getProp_delete [simp]:
  "getProp (AList.delete k ob) k' = (if k' = k then Undef else getProp ob k')"
  by (simp add: getProp_def AList.delete_conv')

lemma getProp_Nil [simp]: "getProp [] k = Undef"
  by (simp add: getProp_def)

lemma getProp_not_key: "k \<notin> fst ` set ob \<Longrightarrow> getProp ob k = Undef"
  by (simp add: getProp_def map_of_eq_None_iff [THEN iffD2])

lemma keys_delete: "fst ` set (AList.delete k ob) = fst ` set ob - {k}"
  by (induction ob) auto

lemma underscore_not_index: "k \<noteq> [] \<Longrightarrow> hd k = CHR ''_'' \<Longrightarrow> \<not> isArrayIndex k"
  by (cases k) (auto simp: isArrayIndex_def isDigit_def)

lemma distinct_jsKeys: "distinct (map fst ob) \<Longrightarrow> distinct (jsKeys ob)"
  by (auto simp: jsKeys_def)

lemma distinct_nodeProps: "distinct (map fst ob) \<Longrightarrow> distinct (nodeProps ob b)"
  by (simp add: nodeProps_def distinct_jsKeys)

lemma sorted_nodeProps: "sorted (nodeProps ob b)"
  by (simp add: nodeProps_def)

lemma nodeProps_eqI:
  assumes "distinct (map fst ob)" "distinct (map fst ob')"
    and "set (nodeProps ob b) = set (nodeProps ob' b')"
  shows "nodeProps ob b = nodeProps ob' b'"
  using assms by (intro sorted_distinct_set_unique) (auto simp: sorted_nodeProps distinct_nodeProps)

lemma nodeProps_update_hidden:
  assumes "k \<noteq> []" "hd k = CHR ''_''"
  shows "nodeProps (AList.update k v ob) b = nodeProps ob b"
proof -
  have ni: "\<not> isArrayIndex k" using assms by (rule underscore_not_index)
  let ?P = "\<lambda>o' prop. prop \<noteq> [] \<and> hd prop \<noteq> CHR ''_'' \<and> (\<not> b \<or> isObject (getProp o' prop))"
  have 1: "filter (?P (AList.update k v ob)) xs = filter (?P ob) xs" for xs
    using assms by (intro filter_cong) auto
  have 2: "filter (?P ob) (jsKeys (AList.update k v ob)) = filter (?P ob) (jsKeys ob)"
    using assms ni by (auto simp: jsKeys_def AList.update_keys)
  show ?thesis unfolding nodeProps_def 1 2 ..
qed

lemma isTerminal_update_other: "k \<noteq> [] \<Longrightarrow> isTerminal (AList.update k v ob) = isTerminal ob"
  by (simp add: isTerminal_def)

section \<open>Key invariant of the insert phase\<close>

lemma keysOK_Nil [simp]: "keysOK []" by (simp add: keysOK_def)

lemma keysOK_update: "keysOK ob \<Longrightarrow> length k \<le> 1 \<or> k = ''_c'' \<Longrightarrow> keysOK (AList.update k v ob)"
  by (auto simp: keysOK_def AList.distinct_update AList.dom_update)

lemma keysOK_delete: "keysOK ob \<Longrightarrow> keysOK (AList.delete k ob)"
  by (auto simp: keysOK_def AList.distinct_delete keys_delete)

lemma insertInv_setProp:
  "insertInv s \<Longrightarrow> length k \<le> 1 \<or> k = ''_c'' \<Longrightarrow> insertInv (setProp a k v s)"
  by (simp add: insertInv_def setProp_def keysOK_update)

lemma insertInv_delProp: "insertInv s \<Longrightarrow> insertInv (delProp a k s)"
  by (simp add: insertInv_def delProp_def keysOK_delete)

lemma insertInv_newObject: "insertInv s \<Longrightarrow> insertInv (snd (newObject s))"
  by (simp add: insertInv_def newObject_def)

lemma insertInv_fields [simp]:
  "insertInv (s\<lparr> wordCount := n \<rparr>) = insertInv s"
  "insertInv (s\<lparr> lastWord := w \<rparr>) = insertInv s"
  "insertInv (s\<lparr> suffixes := sf \<rparr>) = insertInv s"
  "insertInv (s\<lparr> cNext := c \<rparr>) = insertInv s"
  "insertInv (s\<lparr> vCur := c \<rparr>) = insertInv s"
  by (simp_all add: insertInv_def)


lemma addTerminal_short: "length w \<le> 1 \<Longrightarrow> addTerminal node w s = setProp node w (Num 1) s"
  by (simp add: addTerminal.simps [of node w s])

lemma addTerminal_long:
  "\<not> length w \<le> 1 \<Longrightarrow>
   addTerminal node w s =
     addTerminal (nextAddr s) (tl w) (setProp node [hd w] (Obj (nextAddr s)) (snd (newObject s)))"
  by (simp add: addTerminal.simps [of node w s] newObject_def)

lemma addTerminal_induct [case_names step]:
  assumes "\<And>node w s.
     (\<not> length w \<le> 1 \<Longrightarrow>
        P (nextAddr s) (tl w) (setProp node [hd w] (Obj (nextAddr s)) (snd (newObject s)))) \<Longrightarrow>
     P node w s"
  shows "P node w s"
proof (induction node w s rule: addTerminal.induct)
  case (1 node p s)
  show ?case
  proof (rule assms)
    assume "\<not> length p \<le> 1"
    from 1 [OF this, of "nextAddr s" "snd (newObject s)"]
    show "P (nextAddr s) (tl p) (setProp node [hd p] (Obj (nextAddr s)) (snd (newObject s)))"
      by (simp add: newObject_def)
  qed
qed

lemma insertInv_addTerminal: "insertInv s \<Longrightarrow> insertInv (addTerminal node w s)"
proof (induction node w s rule: addTerminal_induct)
  case (step node w s)
  show ?case
  proof (cases "length w \<le> 1")
    case True
    with step(2) show ?thesis by (simp add: addTerminal_short insertInv_setProp)
  next
    case False
    have "insertInv (setProp node [hd w] (Obj (nextAddr s)) (snd (newObject s)))"
      using step(2) by (simp add: insertInv_setProp insertInv_newObject)
    from step(1) [OF False this] False show ?thesis
      by (simp add: addTerminal_long)
  qed
qed

lemma commonPrefix_take: "take (length (commonPrefix w p)) p = commonPrefix w p"
  by (induction w p rule: commonPrefix.induct) auto


lemma commonPrefix_length_prop: "length (commonPrefix w p) \<le> length p"
  by (induction w p rule: commonPrefix.induct) auto

lemma commonPrefix_short:
  assumes "length p \<le> 1 \<or> p = ''_c''" and "commonPrefix w p \<noteq> []"
  shows "(length (commonPrefix w p) \<le> 1 \<or> commonPrefix w p = ''_c'') \<and>
         length (drop (length (commonPrefix w p)) p) \<le> 1"
  using assms(1)
proof
  assume "length p \<le> 1"
  moreover have "length (commonPrefix w p) \<le> length p" by (rule commonPrefix_length_prop)
  ultimately show ?thesis by simp
next
  assume p: "p = ''_c''"
  have "length (commonPrefix w p) \<le> 2" using commonPrefix_length_prop [of w p] p by simp
  moreover have "length (commonPrefix w p) \<noteq> 0" using assms(2) by simp
  ultimately have "length (commonPrefix w p) = 1 \<or> length (commonPrefix w p) = 2" by arith
  then show ?thesis
  proof
    assume "length (commonPrefix w p) = 1"
    then show ?thesis using p by simp
  next
    assume l: "length (commonPrefix w p) = 2"
    then have "commonPrefix w p = take 2 p" using commonPrefix_take [of w p] by simp
    then show ?thesis using p l by simp
  qed
qed

text \<open>The four ways through \<open>_insert\<close>.\<close>

lemma insert_at_none:
  "find (\<lambda>prop. commonPrefix word prop \<noteq> []) (jsKeys (heap s node)) = None \<Longrightarrow>
   insert_at word node s = (addTerminal node word s)\<lparr> wordCount := Suc (wordCount s) \<rparr>"
  by (subst insert_at.simps) simp

lemma insert_at_descend:
  "find (\<lambda>prop. commonPrefix word prop \<noteq> []) (jsKeys (heap s node)) = Some p \<Longrightarrow>
   p = commonPrefix word p \<Longrightarrow> getProp (heap s node) p = Obj child \<Longrightarrow>
   insert_at word node s = insert_at (drop (length p) word) child s"
  by (subst insert_at.simps) (simp add: Let_def)

lemma insert_at_duplicate:
  "find (\<lambda>prop. commonPrefix word prop \<noteq> []) (jsKeys (heap s node)) = Some p \<Longrightarrow>
   p = word \<Longrightarrow> isNumber (getProp (heap s node) p) \<Longrightarrow>
   insert_at word node s = s"
  by (subst insert_at.simps) (cases "getProp (heap s node) p"; simp add: Let_def)

lemma insert_at_split:
  "find (\<lambda>prop. commonPrefix word prop \<noteq> []) (jsKeys (heap s node)) = Some p \<Longrightarrow>
   \<not> (p = commonPrefix word p \<and> isObject (getProp (heap s node) p)) \<Longrightarrow>
   \<not> (p = word \<and> isNumber (getProp (heap s node) p)) \<Longrightarrow>
   insert_at word node s =
     (let pre = commonPrefix word p;
          s2 = setProp (nextAddr s) (drop (length pre) p) (getProp (heap s node) p) (snd (newObject s));
          s3 = addTerminal (nextAddr s) (drop (length pre) word) s2;
          s5 = setProp node pre (Obj (nextAddr s)) (delProp node p s3)
      in s5\<lparr> wordCount := Suc (wordCount s5) \<rparr>)"
  by (subst insert_at.simps) (auto simp add: Let_def newObject_def)

lemma insert_at_cases [consumes 0, case_names none descend duplicate split]:
  assumes "find (\<lambda>prop. commonPrefix word prop \<noteq> []) (jsKeys (heap (s::trie) node)) = None \<Longrightarrow> R"
    and "\<And>p child. find (\<lambda>prop. commonPrefix word prop \<noteq> []) (jsKeys (heap s node)) = Some p \<Longrightarrow>
           p = commonPrefix word p \<Longrightarrow> getProp (heap s node) p = Obj child \<Longrightarrow> R"
    and "\<And>p. find (\<lambda>prop. commonPrefix word prop \<noteq> []) (jsKeys (heap s node)) = Some p \<Longrightarrow>
           p = word \<Longrightarrow> isNumber (getProp (heap s node) p) \<Longrightarrow> R"
    and "\<And>p. find (\<lambda>prop. commonPrefix word prop \<noteq> []) (jsKeys (heap s node)) = Some p \<Longrightarrow>
           \<not> (p = commonPrefix word p \<and> isObject (getProp (heap s node) p)) \<Longrightarrow>
           \<not> (p = word \<and> isNumber (getProp (heap s node) p)) \<Longrightarrow> R"
  shows R
proof (cases "find (\<lambda>prop. commonPrefix word prop \<noteq> []) (jsKeys (heap s node))")
  case None
  then show ?thesis by (rule assms(1))
next
  case (Some p)
  show ?thesis
  proof (cases "p = commonPrefix word p \<and> isObject (getProp (heap s node) p)")
    case True
    then obtain child where "getProp (heap s node) p = Obj child"
      by (cases "getProp (heap s node) p") auto
    with Some True show ?thesis by (intro assms(2) [of p child]) auto
  next
    case False
    show ?thesis
    proof (cases "p = word \<and> isNumber (getProp (heap s node) p)")
      case True
      with Some show ?thesis by (intro assms(3) [of p]) auto
    next
      case F2: False
      with Some False show ?thesis by (intro assms(4) [of p]) auto
    qed
  qed
qed

lemma insert_at_induct [case_names none descend duplicate split]:
  assumes "\<And>word node s.
      find (\<lambda>prop. commonPrefix word prop \<noteq> []) (jsKeys (heap s node)) = None \<Longrightarrow> P word node (s::trie)"
    and "\<And>word node s p child.
      find (\<lambda>prop. commonPrefix word prop \<noteq> []) (jsKeys (heap s node)) = Some p \<Longrightarrow>
      p = commonPrefix word p \<Longrightarrow> getProp (heap s node) p = Obj child \<Longrightarrow>
      P (drop (length p) word) child s \<Longrightarrow> P word node s"
    and "\<And>word node s p.
      find (\<lambda>prop. commonPrefix word prop \<noteq> []) (jsKeys (heap s node)) = Some p \<Longrightarrow>
      p = word \<Longrightarrow> isNumber (getProp (heap s node) p) \<Longrightarrow> P word node s"
    and "\<And>word node s p.
      find (\<lambda>prop. commonPrefix word prop \<noteq> []) (jsKeys (heap s node)) = Some p \<Longrightarrow>
      \<not> (p = commonPrefix word p \<and> isObject (getProp (heap s node) p)) \<Longrightarrow>
      \<not> (p = word \<and> isNumber (getProp (heap s node) p)) \<Longrightarrow> P word node s"
  shows "P word node s"
proof (induction word node s rule: insert_at.induct)
  case (1 word node s)
  show ?case
  proof (cases rule: insert_at_cases [of word s node])
    case none
    then show ?thesis by (rule assms(1))
  next
    case (descend p child)
    have "P (drop (length (commonPrefix word p)) word) child s"
      using descend by (intro 1 [of p "commonPrefix word p" "getProp (heap s node) p" child]) auto
    with descend show ?thesis by (intro assms(2) [of word s node p child]) auto
  next
    case (duplicate p)
    then show ?thesis by (rule assms(3))
  next
    case (split p)
    then show ?thesis by (rule assms(4))
  qed
qed

lemma find_key:
  "find Q (jsKeys ob) = Some p \<Longrightarrow> p \<in> fst ` set ob \<and> Q p"
  by (auto simp: find_Some_iff set_jsKeys [symmetric] in_set_conv_nth)

lemma insertInv_insert_at: "insertInv s \<Longrightarrow> insertInv (insert_at w node s)"
proof (induction w node s rule: insert_at_induct)
  case (none word node s)
  then show ?case by (simp add: insert_at_none insertInv_addTerminal)
next
  case (descend word node s p child)
  then show ?case by (simp add: insert_at_descend)
next
  case (duplicate word node s p)
  then show ?case by (simp add: insert_at_duplicate)
next
  case (split word node s p)
  from find_key [OF split(1)] have pk: "p \<in> fst ` set (heap s node)" and ne: "commonPrefix word p \<noteq> []"
    by auto
  from split(4) pk have "length p \<le> 1 \<or> p = ''_c''" by (auto simp: insertInv_def keysOK_def)
  from commonPrefix_short [OF this ne]
  have sh: "length (commonPrefix word p) \<le> 1 \<or> commonPrefix word p = ''_c''"
           "length (drop (length (commonPrefix word p)) p) \<le> 1"
    by auto
  show ?case
    unfolding insert_at_split [OF split(1-3)] Let_def insertInv_fields
    using split(4) sh
    by (intro insertInv_setProp insertInv_delProp insertInv_addTerminal insertInv_newObject) auto
qed

section \<open>The canonicalizer keeps the key invariant\<close>

lemma keysOK_keyD: "keysOK ob \<Longrightarrow> k \<in> fst ` set ob \<Longrightarrow> length k \<le> 1 \<or> k = ''_c''"
  unfolding keysOK_def by blast

lemma nodeProps_short:
  assumes "keysOK ob" and "p \<in> set (nodeProps ob b)"
  shows "length p = 1"
proof -
  from assms(2) have k: "p \<in> fst ` set ob" and ne: "p \<noteq> []" and h: "hd p \<noteq> CHR ''_''"
    by (auto simp: set_nodeProps)
  from keysOK_keyD [OF assms(1) k] show ?thesis
  proof
    assume "length p \<le> 1"
    with ne show ?thesis by (cases p) auto
  next
    assume "p = ''_c''"
    with h show ?thesis by simp
  qed
qed

lemma combineLoop_insertInv:
  assumes chain: "\<And>node s r s'. combineSuffixNode n node s = Some (r, s') \<Longrightarrow> insertInv s \<Longrightarrow> insertInv s'"
  shows "combineLoop n node props sig s = Some (sig', s') \<Longrightarrow> insertInv s \<Longrightarrow>
         (\<forall>p\<in>set props. length p \<le> 1) \<Longrightarrow> insertInv s'"
proof (induction props arbitrary: sig s)
  case Nil
  then show ?case by simp
next
  case (Cons p props)
  show ?case
  proof (cases "getProp (heap s node) p")
    case (Obj child)
    with Cons(2) obtain c s1 where
      c: "combineSuffixNode n child s = Some (c, s1)" and
      l: "combineLoop n node props (sig @ [p, joinElem (getProp (heap s1 c) ''_c'')])
            (setProp node p (Obj c) s1) = Some (sig', s')"
      by (auto split: option.splits)
    from chain [OF c Cons(3)] have "insertInv s1" .
    then have "insertInv (setProp node p (Obj c) s1)"
      using Cons(4) by (simp add: insertInv_setProp)
    from Cons(1) [OF l this] Cons(4) show ?thesis by simp
  next
    case (Num x)
    with Cons show ?thesis by simp
  next
    case (Str x)
    with Cons show ?thesis by simp
  next
    case Undef
    with Cons show ?thesis by simp
  qed
qed

lemma combineSuffixNode_insertInv:
  "combineSuffixNode n node s = Some (r, s') \<Longrightarrow> insertInv s \<Longrightarrow> insertInv s'"
proof (induction n arbitrary: node s r s')
  case 0
  then show ?case by simp
next
  case (Suc n)
  show ?case
  proof (cases "truthy (getProp (heap s node) ''_c'')")
    case True
    with Suc(2,3) show ?thesis by simp
  next
    case False
    with Suc(2) obtain sig s1 where
      l: "combineLoop n node (nodeProps (heap s node) False)
            (if isTerminal (heap s node) then [''!''] else []) s = Some (sig, s1)"
      by (auto split: option.splits)
    have sh: "\<forall>p\<in>set (nodeProps (heap s node) False). length p \<le> 1"
      using Suc(3) nodeProps_short by (fastforce simp: insertInv_def)
    have i1: "insertInv s1"
      by (rule combineLoop_insertInv [OF Suc(1) l Suc(3) sh])
    show ?thesis
    proof (cases "map_of (suffixes s1) (join sig)")
      case None
      with Suc(2) False l have
        "s' = setProp node ''_c'' (Num (cNext s1))
                (s1\<lparr> suffixes := AList.update (join sig) node (suffixes s1), cNext := Suc (cNext s1) \<rparr>)"
        by auto
      with i1 show ?thesis by (simp add: insertInv_setProp)
    next
      case (Some shared)
      with Suc(2) False l have "s' = s1" by auto
      with i1 show ?thesis by simp
    qed
  qed
qed

lemma insert_word_insertInv:
  assumes "insert_word fuel w s = Some s'" and "insertInv s"
  shows "insertInv s'"
proof -
  let ?s2 = "(insert_at w (root s) s)\<lparr> lastWord := w \<rparr>"
  have i2: "insertInv ?s2" using assms(2) by (simp add: insertInv_insert_at)
  show ?thesis
  proof (cases "commonPrefix w (lastWord (insert_at w (root s) s)) = lastWord (insert_at w (root s) s)")
    case True
    with assms(1) have "s' = ?s2" by (simp add: insert_word_def Let_def)
    with i2 show ?thesis by simp
  next
    case False
    show ?thesis
    proof (cases "uniqueNode (heap ?s2) (lastWord (insert_at w (root s) s)) w (root ?s2)")
      case (Obj freeze)
      with False assms(1) obtain r where "combineSuffixNode fuel freeze ?s2 = Some (r, s')"
        by (auto simp: insert_word_def Let_def)
      from combineSuffixNode_insertInv [OF this i2] show ?thesis .
    next
      case (Num x)
      with False assms(1) have "s' = ?s2" by (simp add: insert_word_def Let_def)
      with i2 show ?thesis by simp
    next
      case (Str x)
      with False assms(1) have "s' = ?s2" by (simp add: insert_word_def Let_def)
      with i2 show ?thesis by simp
    next
      case Undef
      with False assms(1) have "s' = ?s2" by (simp add: insert_word_def Let_def)
      with i2 show ?thesis by simp
    qed
  qed
qed

lemma insertWords_insertInv:
  "insertWords fuel ws s = Some s' \<Longrightarrow> insertInv s \<Longrightarrow> insertInv s'"
proof (induction ws arbitrary: s)
  case Nil
  then show ?case by simp
next
  case (Cons w ws)
  from Cons(2) obtain s1 where 1: "insert_word fuel w s = Some s1" and 2: "insertWords fuel ws s1 = Some s'"
    by (auto split: option.splits)
  from Cons(1) [OF 2 insert_word_insertInv [OF 1 Cons(3)]] show ?case .
qed

lemma insertInv_newTrie: "insertInv newTrie"
  by (simp add: insertInv_def)

lemma keysOK_prefixFree: "keysOK ob \<Longrightarrow> prefixFree ob"
proof -
  assume k: "keysOK ob"
  then have d: "distinct (nodeProps ob False)" by (simp add: keysOK_def distinct_nodeProps)
  have "k1 = k2" if "k1 \<in> set (nodeProps ob False)" "k2 \<in> set (nodeProps ob False)" "hd k1 = hd k2" for k1 k2
  proof -
    from nodeProps_short [OF k that(1)] nodeProps_short [OF k that(2)] that(3)
    show ?thesis by (cases k1; cases k2) auto
  qed
  with d show ?thesis by (auto simp: prefixFree_def)
qed

lemma keysOK_fresh:
  assumes "keysOK ob"
  shows "getProp ob ''_g'' = Undef" "getProp ob ''_d'' = Undef" "getProp ob ''_v'' = Undef"
proof -
  have "k \<notin> fst ` set ob" if "length k = 2" "k \<noteq> ''_c''" for k
    using keysOK_keyD [OF assms, of k] that by auto
  from this [of "''_g''"] this [of "''_d''"] this [of "''_v''"]
  show "getProp ob ''_g'' = Undef" "getProp ob ''_d'' = Undef" "getProp ob ''_v'' = Undef"
    by (simp_all add: getProp_not_key)
qed

section \<open>Steps that only touch bookkeeping fields\<close>

lemma hiddenStep_refl: "hiddenStep ks s s"
  by (simp add: hiddenStep_def)

lemma hiddenStep_trans: "hiddenStep ks s s1 \<Longrightarrow> hiddenStep ks s1 s2 \<Longrightarrow> hiddenStep ks s s2"
  by (simp add: hiddenStep_def)

lemma hiddenStep_setProp:
  assumes "k \<in> ks" "k \<noteq> []" "hd k = CHR ''_''"
  shows "hiddenStep ks s (setProp a k v s)"
  using assms by (auto simp: hiddenStep_def setProp_def nodeProps_update_hidden AList.distinct_update)

lemma hiddenStep_vCur: "hiddenStep ks s s' \<Longrightarrow> vCur s' = vCur s"
  by (simp add: hiddenStep_def)

lemma hiddenStep_root: "hiddenStep ks s s' \<Longrightarrow> root s' = root s"
  by (simp add: hiddenStep_def)

lemma hiddenStep_nodeProps: "hiddenStep ks s s' \<Longrightarrow> nodeProps (heap s' b) f = nodeProps (heap s b) f"
  by (simp add: hiddenStep_def)

lemma hiddenStep_getProp: "hiddenStep ks s s' \<Longrightarrow> k \<notin> ks \<Longrightarrow> getProp (heap s' b) k = getProp (heap s b) k"
  by (simp add: hiddenStep_def)

lemma hiddenStep_visible:
  assumes "hiddenStep ks s s'" "hiddenKeys ks" "k = [] \<or> hd k \<noteq> CHR ''_''"
  shows "getProp (heap s' b) k = getProp (heap s b) k"
proof -
  have "k \<notin> ks" using assms(2,3) by (auto simp: hiddenKeys_def)
  then show ?thesis using assms(1) by (rule hiddenStep_getProp [rotated])
qed

lemma children_cong:
  assumes "nodeProps ob' True = nodeProps ob True"
    and "\<And>p. p \<in> set (nodeProps ob True) \<Longrightarrow> getProp ob' p = getProp ob p"
  shows "children ob' = children ob"
  unfolding children_def assms(1)
  by (intro arg_cong [where f = concat] map_cong) (auto simp: assms(2))

lemma hiddenStep_children:
  assumes "hiddenStep ks s s'" "hiddenKeys ks"
  shows "children (heap s' b) = children (heap s b)"
proof (rule children_cong)
  show "nodeProps (heap s' b) True = nodeProps (heap s b) True"
    using assms(1) by (rule hiddenStep_nodeProps)
  fix p assume "p \<in> set (nodeProps (heap s b) True)"
  then have "hd p \<noteq> CHR ''_''" by (auto simp: set_nodeProps)
  then show "getProp (heap s' b) p = getProp (heap s b) p"
    using assms by (intro hiddenStep_visible) auto
qed

lemma hiddenStep_edgeRel:
  "hiddenStep ks s s' \<Longrightarrow> hiddenKeys ks \<Longrightarrow> edgeRel (heap s') = edgeRel (heap s)"
  by (simp add: edgeRel_def hiddenStep_children)

lemma hiddenStep_wellKeyed:
  "hiddenStep ks s s' \<Longrightarrow> wellKeyed (heap s) \<Longrightarrow> wellKeyed (heap s')"
  by (simp add: wellKeyed_def hiddenStep_def prefixFree_def)

section \<open>\<open>countDegree\<close> only touches \<open>_d\<close> and \<open>_v\<close>\<close>

lemma hiddenKeys_countKeys: "hiddenKeys countKeys"
  by (simp add: hiddenKeys_def)

lemma incDegree_hidden: "hiddenStep countKeys s (incDegree a s)"
  unfolding incDegree_def by (rule hiddenStep_setProp) auto

lemma visited_hidden: "hiddenStep countKeys s (snd (visited a s))"
  unfolding visited_def by (auto intro: hiddenStep_setProp hiddenStep_refl)

lemma countLoop_hidden:
  assumes chain: "\<And>a s s'. countDegree n a s = Some s' \<Longrightarrow> hiddenStep countKeys s s'"
  shows "countLoop n node props s = Some s' \<Longrightarrow> hiddenStep countKeys s s'"
proof (induction props arbitrary: s)
  case Nil
  then show ?case by (simp add: hiddenStep_refl)
next
  case (Cons p props)
  from Cons(2) obtain child s1 where
    "countDegree n child s = Some s1" "countLoop n node props s1 = Some s'"
    by (auto split: val.splits option.splits)
  from chain [OF this(1)] Cons(1) [OF this(2)] show ?case by (rule hiddenStep_trans)
qed

lemma countDegree_hidden: "countDegree n a s = Some s' \<Longrightarrow> hiddenStep countKeys s s'"
proof (induction n arbitrary: a s s')
  case 0
  then show ?case by simp
next
  case (Suc n)
  let ?s0 = "incDegree a s"
  have h1: "hiddenStep countKeys s (snd (visited a ?s0))"
    using incDegree_hidden visited_hidden by (rule hiddenStep_trans)
  show ?case
  proof (cases "fst (visited a ?s0)")
    case True
    with Suc(2) have "s' = snd (visited a ?s0)" by (auto split: prod.splits)
    with h1 show ?thesis by simp
  next
    case False
    with Suc(2) have
      "countLoop n a (nodeProps (heap (snd (visited a ?s0)) a) True) (snd (visited a ?s0)) = Some s'"
      by (auto split: prod.splits)
    from countLoop_hidden [OF Suc(1) this] h1 show ?thesis by (rule hiddenStep_trans [rotated])
  qed
qed

section \<open>What \<open>countDegree\<close> computes\<close>

lemma dfsResult_Nil: "dfsResult [] s s"
  by (simp add: dfsResult_def)

lemma dfsResult_append:
  assumes 1: "dfsResult cs1 s s1" and h: "hiddenStep countKeys s s1" and 2: "dfsResult cs2 s1 s2"
  shows "dfsResult (cs1 @ cs2) s s2"
proof -
  let ?v = "vCur s"
  let ?V = "visitedSet (heap s) ?v" and ?V1 = "visitedSet (heap s1) ?v" and ?V2 = "visitedSet (heap s2) ?v"
  have v1: "vCur s1 = ?v" using h by (rule hiddenStep_vCur)
  have ch: "children (heap s1 x) = children (heap s x)" for x
    using h hiddenKeys_countKeys by (rule hiddenStep_children)
  have er: "edgeRel (heap s1) = edgeRel (heap s)"
    using h hiddenKeys_countKeys by (rule hiddenStep_edgeRel)
  from 1 have a: "?V \<subseteq> ?V1" "set cs1 \<subseteq> ?V1" "finite (?V1 - ?V)"
    and a4: "\<And>x. x \<in> ?V1 - ?V \<Longrightarrow> set (children (heap s x)) \<subseteq> ?V1 \<and> (\<exists>c\<in>set cs1. (c, x) \<in> (edgeRel (heap s))\<^sup>*)"
    and a5: "\<And>b. inDegree (heap s1 b) = inDegree (heap s b) + count_list cs1 b + (\<Sum>x\<in>?V1 - ?V. count_list (children (heap s x)) b)"
    by (auto simp: dfsResult_def)
  from 2 have b: "?V1 \<subseteq> ?V2" "set cs2 \<subseteq> ?V2" "finite (?V2 - ?V1)"
    and b4: "\<And>x. x \<in> ?V2 - ?V1 \<Longrightarrow> set (children (heap s x)) \<subseteq> ?V2 \<and> (\<exists>c\<in>set cs2. (c, x) \<in> (edgeRel (heap s))\<^sup>*)"
    and b5: "\<And>b. inDegree (heap s2 b) = inDegree (heap s1 b) + count_list cs2 b + (\<Sum>x\<in>?V2 - ?V1. count_list (children (heap s x)) b)"
    by (auto simp: dfsResult_def v1 ch er)
  have split: "?V2 - ?V = (?V1 - ?V) \<union> (?V2 - ?V1)" "(?V1 - ?V) \<inter> (?V2 - ?V1) = {}"
    using a(1) b(1) by auto
  have sum: "(\<Sum>x\<in>?V2 - ?V. f x) = (\<Sum>x\<in>?V1 - ?V. f x) + (\<Sum>x\<in>?V2 - ?V1. f x)" for f :: "nat \<Rightarrow> nat"
    unfolding split(1) using a(3) b(3) split(2) by (rule sum.union_disjoint)
  have c1: "?V \<subseteq> ?V2" using a(1) b(1) by auto
  have c2: "set (cs1 @ cs2) \<subseteq> ?V2" using a(2) b(1,2) by auto
  have c3: "finite (?V2 - ?V)" unfolding split(1) using a(3) b(3) by simp
  have c4: "set (children (heap s x)) \<subseteq> ?V2 \<and> (\<exists>c\<in>set (cs1 @ cs2). (c, x) \<in> (edgeRel (heap s))\<^sup>*)"
    if "x \<in> ?V2 - ?V" for x
  proof (cases "x \<in> ?V1")
    case True
    with that a4 [of x] b(1) show ?thesis by auto
  next
    case False
    with that b4 [of x] show ?thesis by auto
  qed
  have c5: "inDegree (heap s2 b) = inDegree (heap s b) + count_list (cs1 @ cs2) b +
              (\<Sum>x\<in>?V2 - ?V. count_list (children (heap s x)) b)" for b
    by (simp add: a5 b5 sum)
  show ?thesis unfolding dfsResult_def using c1 c2 c3 c4 c5 by blast
qed

lemma inDegree_incDegree:
  "inDegree (heap (incDegree a s) b) = inDegree (heap s b) + (if b = a then 1 else 0)"
  by (auto simp: inDegree_def incDegree_def setProp_def split: val.splits)

lemma dfsResult_revisit:
  assumes "fst (visited a (incDegree a s))"
  shows "dfsResult [a] s (snd (visited a (incDegree a s)))"
proof -
  from assms have eq: "snd (visited a (incDegree a s)) = incDegree a s"
    and v: "getProp (heap (incDegree a s) a) ''_v'' = Num (vCur (incDegree a s))"
    by (auto simp: visited_def split: if_splits)
  have vs: "visitedSet (heap (incDegree a s)) v = visitedSet (heap s) v" for v
    by (auto simp: visitedSet_def incDegree_def setProp_def)
  have "a \<in> visitedSet (heap s) (vCur s)"
    using v by (auto simp: visitedSet_def incDegree_def setProp_def)
  then show ?thesis
    unfolding eq dfsResult_def by (simp add: vs inDegree_incDegree)
qed

lemma dfsResult_node:
  assumes nv: "\<not> fst (visited a (incDegree a s))"
    and l: "dfsResult (children (heap s a)) (snd (visited a (incDegree a s))) s'"
    and h: "hiddenStep countKeys (snd (visited a (incDegree a s))) s'"
  shows "dfsResult [a] s s'"
proof -
  let ?s1 = "snd (visited a (incDegree a s))"
  let ?v = "vCur s"
  let ?V = "visitedSet (heap s) ?v" and ?V1 = "visitedSet (heap ?s1) ?v" and ?V' = "visitedSet (heap s') ?v"
  have h1: "hiddenStep countKeys s ?s1"
    using incDegree_hidden visited_hidden by (rule hiddenStep_trans)
  have v1: "vCur ?s1 = ?v" using h1 by (rule hiddenStep_vCur)
  have ch: "children (heap ?s1 x) = children (heap s x)" for x
    using h1 hiddenKeys_countKeys by (rule hiddenStep_children)
  have er: "edgeRel (heap ?s1) = edgeRel (heap s)"
    using h1 hiddenKeys_countKeys by (rule hiddenStep_edgeRel)
  from nv have s1: "?s1 = setProp a ''_v'' (Num (vCur s)) (incDegree a s)"
    and anv: "getProp (heap s a) ''_v'' \<noteq> Num (vCur s)"
    by (auto simp: visited_def incDegree_def setProp_def split: if_splits)
  have V1: "?V1 = insert a ?V"
    unfolding s1 by (auto simp: visitedSet_def incDegree_def setProp_def)
  have aV: "a \<notin> ?V" using anv by (simp add: visitedSet_def)
  have d1: "inDegree (heap ?s1 b) = inDegree (heap s b) + (if b = a then 1 else 0)" for b
    unfolding s1 using inDegree_incDegree [of a s b]
    by (auto simp: inDegree_def setProp_def)
  from l have a: "?V1 \<subseteq> ?V'" "set (children (heap s a)) \<subseteq> ?V'" "finite (?V' - ?V1)"
    and a4: "\<And>x. x \<in> ?V' - ?V1 \<Longrightarrow> set (children (heap s x)) \<subseteq> ?V' \<and>
               (\<exists>c\<in>set (children (heap s a)). (c, x) \<in> (edgeRel (heap s))\<^sup>*)"
    and a5: "\<And>b. inDegree (heap s' b) = inDegree (heap ?s1 b) + count_list (children (heap s a)) b +
               (\<Sum>x\<in>?V' - ?V1. count_list (children (heap s x)) b)"
    by (auto simp: dfsResult_def v1 ch er)
  have N: "?V' - ?V = insert a (?V' - ?V1)" using a(1) aV V1 by auto
  have an: "a \<notin> ?V' - ?V1" using V1 by auto
  have c1: "?V \<subseteq> ?V'" using a(1) V1 by auto
  have c2: "set [a] \<subseteq> ?V'" using a(1) V1 by auto
  have c3: "finite (?V' - ?V)" unfolding N using a(3) by simp
  have c4: "set (children (heap s x)) \<subseteq> ?V' \<and> (\<exists>c\<in>set [a]. (c, x) \<in> (edgeRel (heap s))\<^sup>*)"
    if "x \<in> ?V' - ?V" for x
  proof (cases "x = a")
    case True
    with a(2) show ?thesis by auto
  next
    case False
    with that N have "x \<in> ?V' - ?V1" by auto
    from a4 [OF this] obtain c where c: "c \<in> set (children (heap s a))" "(c, x) \<in> (edgeRel (heap s))\<^sup>*"
      and sub: "set (children (heap s x)) \<subseteq> ?V'" by auto
    from c(1) have "(a, c) \<in> edgeRel (heap s)" by (simp add: edgeRel_def)
    from this c(2) have "(a, x) \<in> (edgeRel (heap s))\<^sup>*" by (rule converse_rtrancl_into_rtrancl)
    with sub show ?thesis by simp
  qed
  have c5: "inDegree (heap s' b) = inDegree (heap s b) + count_list [a] b +
              (\<Sum>x\<in>?V' - ?V. count_list (children (heap s x)) b)" for b
    unfolding N using a(3) an by (simp add: a5 d1)
  show ?thesis unfolding dfsResult_def using c1 c2 c3 c4 c5 by blast
qed

lemma children_targets: "children ob = targets ob (nodeProps ob True)"
  by (simp add: children_def targets_def)

lemma targets_cong:
  "(\<And>p. p \<in> set props \<Longrightarrow> getProp ob' p = getProp ob p) \<Longrightarrow> targets ob' props = targets ob props"
  unfolding targets_def by (intro arg_cong [where f = concat] map_cong) auto

lemma countLoop_dfs:
  assumes chain: "\<And>a s s'. countDegree n a s = Some s' \<Longrightarrow> dfsResult [a] s s'"
  shows "countLoop n node props s = Some s' \<Longrightarrow> (\<forall>q\<in>set props. hd q \<noteq> CHR ''_'') \<Longrightarrow>
         dfsResult (targets (heap s node) props) s s'"
proof (induction props arbitrary: s)
  case Nil
  then show ?case by (simp add: dfsResult_Nil targets_def)
next
  case (Cons p props)
  from Cons(2) obtain child s1 where
    g: "getProp (heap s node) p = Obj child" and
    c: "countDegree n child s = Some s1" and l: "countLoop n node props s1 = Some s'"
    by (auto split: val.splits option.splits)
  have h: "hiddenStep countKeys s s1" using c by (rule countDegree_hidden)
  have "targets (heap s1 node) props = targets (heap s node) props"
  proof (rule targets_cong)
    fix q assume "q \<in> set props"
    with Cons(3) have "hd q \<noteq> CHR ''_''" by simp
    then show "getProp (heap s1 node) q = getProp (heap s node) q"
      using h hiddenKeys_countKeys by (intro hiddenStep_visible) auto
  qed
  with Cons(1) [OF l] Cons(3) have 2: "dfsResult (targets (heap s node) props) s1 s'" by simp
  have 1: "dfsResult [child] s s1" using c by (rule chain)
  have "targets (heap s node) (p # props) = [child] @ targets (heap s node) props"
    using g by (simp add: targets_def)
  with dfsResult_append [OF 1 h 2] show ?case by simp
qed

lemma countDegree_dfs: "countDegree n a s = Some s' \<Longrightarrow> dfsResult [a] s s'"
proof (induction n arbitrary: a s s')
  case 0
  then show ?case by simp
next
  case (Suc n)
  let ?s1 = "snd (visited a (incDegree a s))"
  show ?case
  proof (cases "fst (visited a (incDegree a s))")
    case True
    with Suc(2) have "s' = ?s1" by (auto split: prod.splits)
    with dfsResult_revisit [OF True] show ?thesis by simp
  next
    case False
    with Suc(2) have l: "countLoop n a (nodeProps (heap ?s1 a) True) ?s1 = Some s'"
      by (auto split: prod.splits)
    have h1: "hiddenStep countKeys s ?s1"
      using incDegree_hidden visited_hidden by (rule hiddenStep_trans)
    have "\<forall>q\<in>set (nodeProps (heap ?s1 a) True). hd q \<noteq> CHR ''_''"
      by (auto simp: set_nodeProps)
    from countLoop_dfs [OF Suc(1) l this]
    have "dfsResult (children (heap ?s1 a)) ?s1 s'" by (simp add: children_targets)
    moreover have "children (heap ?s1 a) = children (heap s a)"
      using h1 hiddenKeys_countKeys by (rule hiddenStep_children)
    ultimately have "dfsResult (children (heap s a)) ?s1 s'" by simp
    moreover have "hiddenStep countKeys ?s1 s'"
      by (rule countLoop_hidden [OF _ l]) (rule countDegree_hidden)
    ultimately show ?thesis by (rule dfsResult_node [OF False])
  qed
qed

text \<open>From a fresh epoch and absent in-degrees: the visited nodes are the reachable ones.\<close>

lemma countDegree_total_degree:
  assumes run: "countDegree n r s = Some s'"
    and fresh_d: "\<And>a. getProp (heap s a) ''_d'' = Undef"
    and fresh_v: "\<And>a. getProp (heap s a) ''_v'' \<noteq> Num (vCur s)"
  shows "degreeSum (heap s') r = edgeCount (heap s') r + 1"
proof -
  let ?V = "visitedSet (heap s') (vCur s)"
  let ?E = "edgeRel (heap s)"
  have h: "hiddenStep countKeys s s'" using run by (rule countDegree_hidden)
  have ch: "children (heap s' x) = children (heap s x)" for x
    using h hiddenKeys_countKeys by (rule hiddenStep_children)
  have er: "edgeRel (heap s') = ?E"
    using h hiddenKeys_countKeys by (rule hiddenStep_edgeRel)
  have V0: "visitedSet (heap s) (vCur s) = {}" using fresh_v by (simp add: visitedSet_def)
  have d0: "inDegree (heap s b) = 0" for b by (simp add: inDegree_def fresh_d)
  from countDegree_dfs [OF run]
  have rV: "r \<in> ?V" and fin: "finite ?V"
    and closed: "\<And>x. x \<in> ?V \<Longrightarrow> set (children (heap s x)) \<subseteq> ?V"
    and reach: "\<And>x. x \<in> ?V \<Longrightarrow> (r, x) \<in> ?E\<^sup>*"
    and deg: "\<And>b. inDegree (heap s' b) = (if b = r then 1 else 0) + (\<Sum>x\<in>?V. count_list (children (heap s x)) b)"
    by (auto simp: dfsResult_def V0 d0)
  have "(r, x) \<in> ?E\<^sup>* \<Longrightarrow> x \<in> ?V" for x
  proof (induction rule: rtrancl_induct)
    case base
    show ?case by (rule rV)
  next
    case (step y z)
    then show ?case using closed [of y] by (auto simp: edgeRel_def)
  qed
  with reach have R: "reachable (heap s') r = ?V" by (auto simp: reachable_def er)
  have "degreeSum (heap s') r = (\<Sum>b\<in>?V. (if b = r then 1 else 0) + (\<Sum>x\<in>?V. count_list (children (heap s x)) b))"
    by (simp add: degreeSum_def R deg)
  also have "\<dots> = (\<Sum>b\<in>?V. if b = r then 1 else 0) + (\<Sum>b\<in>?V. \<Sum>x\<in>?V. count_list (children (heap s x)) b)"
    by (rule sum.distrib)
  also have "(\<Sum>b\<in>?V. if b = r then 1 else 0) = (1::nat)" using fin rV by simp
  also have "(\<Sum>b\<in>?V. \<Sum>x\<in>?V. count_list (children (heap s x)) b) = (\<Sum>x\<in>?V. \<Sum>b\<in>?V. count_list (children (heap s x)) b)"
    by (rule sum.swap)
  also have "\<dots> = (\<Sum>x\<in>?V. length (children (heap s x)))"
    by (intro sum.cong refl sum_count_set closed fin)
  also have "\<dots> = edgeCount (heap s') r" by (simp add: edgeCount_def R ch)
  finally show ?thesis by simp
qed

section \<open>Fields the canonicalizer leaves alone\<close>

lemma combineLoop_fields:
  assumes chain: "\<And>node s r s'. combineSuffixNode n node s = Some (r, s') \<Longrightarrow>
                    root s' = root s \<and> vCur s' = vCur s"
  shows "combineLoop n node props sig s = Some (sig', s') \<Longrightarrow> root s' = root s \<and> vCur s' = vCur s"
proof (induction props arbitrary: sig s)
  case Nil
  then show ?case by simp
next
  case (Cons p props)
  show ?case
  proof (cases "getProp (heap s node) p")
    case (Obj child)
    with Cons(2) obtain c s1 where
      c: "combineSuffixNode n child s = Some (c, s1)" and
      l: "combineLoop n node props (sig @ [p, joinElem (getProp (heap s1 c) ''_c'')])
            (setProp node p (Obj c) s1) = Some (sig', s')"
      by (auto split: option.splits)
    from chain [OF c] Cons(1) [OF l] show ?thesis by (simp add: setProp_def)
  next
    case (Num x)
    with Cons show ?thesis by simp
  next
    case (Str x)
    with Cons show ?thesis by simp
  next
    case Undef
    with Cons show ?thesis by simp
  qed
qed

lemma combineSuffixNode_fields:
  "combineSuffixNode n node s = Some (r, s') \<Longrightarrow> root s' = root s \<and> vCur s' = vCur s"
proof (induction n arbitrary: node s r s')
  case 0
  then show ?case by simp
next
  case (Suc n)
  show ?case
  proof (cases "truthy (getProp (heap s node) ''_c'')")
    case True
    with Suc(2) show ?thesis by simp
  next
    case False
    with Suc(2) obtain sig s1 where
      l: "combineLoop n node (nodeProps (heap s node) False)
            (if isTerminal (heap s node) then [''!''] else []) s = Some (sig, s1)"
      by (auto split: option.splits)
    have f1: "root s1 = root s \<and> vCur s1 = vCur s"
      by (rule combineLoop_fields [OF Suc(1) l])
    show ?thesis
    proof (cases "map_of (suffixes s1) (join sig)")
      case None
      with Suc(2) False l have
        "s' = setProp node ''_c'' (Num (cNext s1))
                (s1\<lparr> suffixes := AList.update (join sig) node (suffixes s1), cNext := Suc (cNext s1) \<rparr>)"
        by auto
      with f1 show ?thesis by (simp add: setProp_def)
    next
      case (Some shared)
      with Suc(2) False l have "s' = s1" by auto
      with f1 show ?thesis by simp
    qed
  qed
qed

section \<open>The state in which \<open>collapseChains\<close> starts\<close>

lemma beforeCollapse_steps:
  assumes "beforeCollapse fuel s = Some s3"
  obtains r s1 s2 where
    "combineSuffixNode fuel (root s) s = Some (r, s1)"
    "countDegree fuel (root s) (prepDFS s1) = Some s2"
    "s3 = prepDFS s2" "root s1 = root s" "root s2 = root s"
proof -
  from assms obtain r s1 s2 where
    c: "combineSuffixNode fuel (root s) s = Some (r, s1)" and
    d: "countDegree fuel (root s1) (prepDFS s1) = Some s2" and
    e: "s3 = prepDFS s2"
    by (auto simp: beforeCollapse_def split: option.splits)
  have r1: "root s1 = root s" using combineSuffixNode_fields [OF c] by simp
  have "root s2 = root (prepDFS s1)" using countDegree_hidden [OF d] by (rule hiddenStep_root)
  then have r2: "root s2 = root s" using r1 by (simp add: prepDFS_def)
  from c d e r1 r2 show ?thesis by (intro that [of r s1 s2]) auto
qed

text \<open>
  After \<open>countDegree\<close> has run from the root over the canonicalized store of any sequence
  of inserts, the in-degree fields of the nodes that the traversal reaches add up to the
  number of edges that it follows plus one, the one being the call on the root itself.
\<close>

lemma followed_degree_sum:
  assumes "insertWords fuel ws newTrie = Some s" and "beforeCollapse fuel' s = Some s3"
  shows "degreeSum (heap s3) (root s3) = edgeCount (heap s3) (root s3) + 1"
proof -
  from assms(2) obtain r s1 s2 where
    c: "combineSuffixNode fuel' (root s) s = Some (r, s1)" and
    d: "countDegree fuel' (root s) (prepDFS s1) = Some s2" and
    e: "s3 = prepDFS s2" and r2: "root s2 = root s"
    by (rule beforeCollapse_steps)
  have "insertInv s" using assms(1) insertInv_newTrie by (rule insertWords_insertInv)
  with c have i1: "insertInv s1" by (rule combineSuffixNode_insertInv)
  have k: "keysOK (heap (prepDFS s1) a)" for a using i1 by (simp add: insertInv_def prepDFS_def)
  have "degreeSum (heap s2) (root s) = edgeCount (heap s2) (root s) + 1"
    using d by (rule countDegree_total_degree) (simp_all add: keysOK_fresh [OF k])
  then show ?thesis by (simp add: e r2 prepDFS_def)
qed

lemma build_ab: "insertWords 0 [''ab''] newTrie = Some trie_ab"
  by (simp add: ev_build trie_ab_def)

lemma count_ab: "beforeCollapse (Suc (Suc 0)) trie_ab = Some trie_ab_counted"
  by (simp add: ev_build ev_opt trie_ab_def trie_ab_counted_def)

section \<open>Membership, unfolded\<close>

lemma clean_drop: "clean w \<Longrightarrow> clean (drop n w)"
  by (auto simp: clean_def dest: in_set_dropD)

lemma clean_hd: "clean w \<Longrightarrow> w \<noteq> [] \<Longrightarrow> hd w \<noteq> CHR ''_''"
  by (cases w) (auto simp: clean_def)

lemma isFragment_Nil: "isFragment h [] a = isTerminal (h a)"
  by (subst isFragment.simps) simp



lemma in_nodeProps_True:
  "p \<in> set (nodeProps ob True) \<longleftrightarrow> p \<in> set (nodeProps ob False) \<and> isObject (getProp ob p)"
  by (auto simp: set_nodeProps)

lemma prefixFree_same_head:
  "prefixFree ob \<Longrightarrow> p \<in> set (nodeProps ob False) \<Longrightarrow> q \<in> set (nodeProps ob False) \<Longrightarrow>
   hd p = hd q \<Longrightarrow> p = q"
  unfolding prefixFree_def by blast

lemma label_nonempty: "p \<in> set (nodeProps ob b) \<Longrightarrow> p \<noteq> [] \<and> hd p \<noteq> CHR ''_''"
  by (auto simp: set_nodeProps)

lemma matches_hd: "matches p w \<Longrightarrow> p \<noteq> [] \<Longrightarrow> hd p = hd w \<and> w \<noteq> []"
  unfolding matches_def by (cases p; cases w) auto

lemma matches_append_drop: "matches p w \<Longrightarrow> p @ drop (length p) w = w"
  unfolding matches_def by (metis append_take_drop_id)

lemma matches_length: "matches p w \<Longrightarrow> length p \<le> length w"
  unfolding matches_def by (metis length_take min.cobounded1 min.commute)

lemma isFragment_unfold:
  "w \<noteq> [] \<Longrightarrow>
   isFragment h w a =
     (getProp (h a) w = Num 1 \<or>
      (case find (\<lambda>p. matches p w) (nodeProps (h a) True) of
         None \<Rightarrow> False
       | Some p \<Rightarrow> (case getProp (h a) p of Obj c \<Rightarrow> isFragment h (drop (length p) w) c | _ \<Rightarrow> False)))"
  by (subst isFragment.simps) (simp add: matches_def)

text \<open>
  In a prefix-free node at most one edge label is a prefix of the word, so the loop of
  lines 251-256 finds it whatever the order.
\<close>

lemma matches_unique:
  assumes "prefixFree ob" "x \<in> set (nodeProps ob False)" "y \<in> set (nodeProps ob False)"
    "matches x w" "matches y w"
  shows "x = y"
proof -
  have "hd x = hd w" using matches_hd [OF assms(4)] label_nonempty [OF assms(2)] by simp
  moreover have "hd y = hd w" using matches_hd [OF assms(5)] label_nonempty [OF assms(3)] by simp
  ultimately have "hd x = hd y" by simp
  with assms(1-3) show ?thesis by (rule prefixFree_same_head)
qed

lemma isFragment_step:
  assumes pf: "prefixFree (h a)" and ne: "w \<noteq> []"
  shows "isFragment h w a =
           (getProp (h a) w = Num 1 \<or>
            (\<exists>p c. p \<in> set (nodeProps (h a) False) \<and> getProp (h a) p = Obj c \<and>
                   matches p w \<and> isFragment h (drop (length p) w) c))"
    (is "_ = (_ \<or> ?R)")
proof (cases "find (\<lambda>p. matches p w) (nodeProps (h a) True)")
  case None
  have "\<not> ?R"
  proof
    assume ?R
    then obtain p c where "p \<in> set (nodeProps (h a) False)" "getProp (h a) p = Obj c" "matches p w"
      by blast
    then have "p \<in> set (nodeProps (h a) True) \<and> matches p w" by (simp add: in_nodeProps_True)
    with None show False unfolding find_None_iff by blast
  qed
  moreover have "isFragment h w a = (getProp (h a) w = Num 1)"
    using None by (simp add: isFragment_unfold [OF ne])
  ultimately show ?thesis by blast
next
  case (Some p)
  then have p: "p \<in> set (nodeProps (h a) True)" and m: "matches p w"
    unfolding find_Some_iff by (auto simp: in_set_conv_nth)
  from p have pl: "p \<in> set (nodeProps (h a) False)" and "isObject (getProp (h a) p)"
    by (simp_all add: in_nodeProps_True)
  then obtain c where c: "getProp (h a) p = Obj c" by (cases "getProp (h a) p") auto
  have "?R \<longleftrightarrow> isFragment h (drop (length p) w) c"
  proof
    assume ?R
    then obtain q d where q: "q \<in> set (nodeProps (h a) False)" "getProp (h a) q = Obj d"
      "matches q w" "isFragment h (drop (length q) w) d" by blast
    from matches_unique [OF pf q(1) pl q(3) m] have "q = p" .
    with q c show "isFragment h (drop (length p) w) c" by simp
  next
    assume "isFragment h (drop (length p) w) c"
    with pl c m show ?R by blast
  qed
  moreover have "isFragment h w a = (getProp (h a) w = Num 1 \<or> isFragment h (drop (length p) w) c)"
    using Some c by (simp add: isFragment_unfold [OF ne])
  ultimately show ?thesis by blast
qed

text \<open>Membership of clean words does not see the bookkeeping fields.\<close>

lemma isFragment_same_entries:
  assumes np: "\<And>b. nodeProps (h' b) True = nodeProps (h b) True"
    and gp: "\<And>b k. k = [] \<or> hd k \<noteq> CHR ''_'' \<Longrightarrow> getProp (h' b) k = getProp (h b) k"
  shows "clean w \<Longrightarrow> isFragment h' w a = isFragment h w a"
proof (induction w arbitrary: a rule: length_induct)
  case (1 w)
  show ?case
  proof (cases "w = []")
    case True
    then show ?thesis by (simp add: isFragment_Nil isTerminal_def gp)
  next
    case False
    have g1: "getProp (h' a) w = getProp (h a) w"
      using clean_hd [OF 1(2) False] by (simp add: gp)
    show ?thesis
    proof (cases "find (\<lambda>p. matches p w) (nodeProps (h a) True)")
      case None
      then show ?thesis by (simp add: isFragment_unfold [OF False] g1 np)
    next
      case (Some p)
      then have p: "p \<in> set (nodeProps (h a) True)" and m: "matches p w"
        unfolding find_Some_iff by (auto simp: in_set_conv_nth)
      from label_nonempty [OF p] have pne: "p \<noteq> []" and g2: "getProp (h' a) p = getProp (h a) p"
        by (simp_all add: gp)
      have "length (drop (length p) w) < length w" using pne False by (cases p) auto
      with 1(1) clean_drop [OF 1(2)]
      have "isFragment h' (drop (length p) w) c = isFragment h (drop (length p) w) c" for c
        by blast
      with Some show ?thesis
        by (simp add: isFragment_unfold [OF False] g1 g2 np split: val.splits)
    qed
  qed
qed

section \<open>Hoisting a singleton child\<close>

lemma getProp_key: "getProp ob k \<noteq> Undef \<Longrightarrow> k \<in> fst ` set ob"
  using getProp_not_key by blast

lemma clean_key_is_label:
  "getProp ob k \<noteq> Undef \<Longrightarrow> clean k \<Longrightarrow> k \<noteq> [] \<Longrightarrow> k \<in> set (nodeProps ob False)"
  by (auto simp: set_nodeProps dest: getProp_key clean_hd)

lemma matches_append: "matches (p @ g) w \<longleftrightarrow> matches p w \<and> matches g (drop (length p) w)"
proof
  assume m: "matches (p @ g) w"
  then have w: "(p @ g) @ drop (length (p @ g)) w = w" by (rule matches_append_drop)
  then have "w = p @ (g @ drop (length p + length g) w)" by simp
  then show "matches p w \<and> matches g (drop (length p) w)"
    unfolding matches_def by (metis append_eq_conv_conj)
next
  assume "matches p w \<and> matches g (drop (length p) w)"
  then have "p @ drop (length p) w = w" "g @ drop (length g) (drop (length p) w) = drop (length p) w"
    by (auto dest: matches_append_drop)
  then have "w = (p @ g) @ drop (length g) (drop (length p) w)" by simp
  then show "matches (p @ g) w" unfolding matches_def by (metis append_eq_conv_conj)
qed

lemma matches_self: "matches p (p @ r)"
  by (simp add: matches_def)

text \<open>The entries of the parent after lines 222-224.\<close>

lemma hoisted_getProp:
  "getProp (AList.update q x (AList.delete p ob)) k =
     (if k = q then x else if k = p then Undef else getProp ob k)"
  by simp

lemma hoisted_labels:
  assumes "p \<in> set (nodeProps ob False)"
  shows "set (nodeProps (AList.update (p @ g) x (AList.delete p ob)) False) =
           insert (p @ g) (set (nodeProps ob False) - {p})"
proof -
  from label_nonempty [OF assms] have "p \<noteq> []" "hd p \<noteq> CHR ''_''" by auto
  then have "p @ g \<noteq> []" "hd (p @ g) \<noteq> CHR ''_''" by auto
  then show ?thesis
    by (auto simp: set_nodeProps AList.dom_update keys_delete)
qed

lemma hoisted_distinct:
  "distinct (map fst ob) \<Longrightarrow> distinct (map fst (AList.update q x (AList.delete p ob)))"
  by (simp add: AList.distinct_update AList.distinct_delete)

lemma hoisted_prefixFree:
  assumes pf: "prefixFree ob" and d: "distinct (map fst ob)" and p: "p \<in> set (nodeProps ob False)"
  shows "prefixFree (AList.update (p @ g) x (AList.delete p ob))"
proof -
  let ?ob' = "AList.update (p @ g) x (AList.delete p ob)"
  from label_nonempty [OF p] have pne: "p \<noteq> []" by simp
  have 1: "distinct (nodeProps ?ob' False)"
    using d by (intro distinct_nodeProps hoisted_distinct)
  have 2: "k1 = k2" if "k1 \<in> set (nodeProps ?ob' False)" "k2 \<in> set (nodeProps ?ob' False)" "hd k1 = hd k2" for k1 k2
  proof -
    have s: "q = p @ g \<or> (q \<in> set (nodeProps ob False) \<and> q \<noteq> p)" if "q \<in> set (nodeProps ?ob' False)" for q
      using that hoisted_labels [OF p, of g x] by auto
    have hp: "hd (p @ g) = hd p" using pne by simp
    have other: "q \<in> set (nodeProps ob False) \<Longrightarrow> q \<noteq> p \<Longrightarrow> hd q \<noteq> hd p" for q
      using prefixFree_same_head [OF pf _ p] by blast
    from s [OF that(1)] s [OF that(2)] that(3) hp show ?thesis
      using other prefixFree_same_head [OF pf] by metis
  qed
  from 1 2 show ?thesis unfolding prefixFree_def by blast
qed

text \<open>What a singleton node accepts.\<close>

lemma singleton_language:
  assumes sg: "singletonNode (h c) g" and pf: "prefixFree (h c)" and cl: "clean u"
  shows "isFragment h u c =
           (u \<noteq> [] \<and> ((u = g \<and> getProp (h c) g = Num 1) \<or>
                      (\<exists>d. getProp (h c) g = Obj d \<and> matches g u \<and> isFragment h (drop (length g) u) d)))"
proof (cases "u = []")
  case True
  with sg show ?thesis by (simp add: isFragment_Nil singletonNode_def)
next
  case False
  from sg have lab: "set (nodeProps (h c) False) = {g}" by (simp add: singletonNode_def)
  have a: "getProp (h c) u = Num 1 \<longleftrightarrow> u = g \<and> getProp (h c) g = Num 1"
  proof
    assume n: "getProp (h c) u = Num 1"
    then have "u \<in> set (nodeProps (h c) False)" using cl False by (intro clean_key_is_label) auto
    with lab n show "u = g \<and> getProp (h c) g = Num 1" by auto
  qed auto
  show ?thesis
    unfolding isFragment_step [of h c u, OF pf False] a lab using False by auto
qed


text \<open>
  Lines 222-224 do not change what any node accepts, for words without an underscore: the
  parent \<open>a\<close> had the edge \<open>p\<close> to the singleton \<open>c\<close> with single entry \<open>g\<close>, and now
  has the entry \<open>p @ g\<close> holding what \<open>g\<close> held in \<open>c\<close>.
\<close>

lemma hoist_language:
  fixes h :: "nat \<Rightarrow> obj"
  assumes pf: "\<And>b. prefixFree (h b)" and dk: "distinct (map fst (h a))"
    and pl: "p \<in> set (nodeProps (h a) False)" and gc: "getProp (h a) p = Obj c" and ca: "c \<noteq> a"
    and sg: "singletonNode (h c) g"
    and h': "h' = h(a := AList.update (p @ g) (getProp (h c) g) (AList.delete p (h a)))"
  shows "clean w \<Longrightarrow> isFragment h' w b = isFragment h w b"
proof (induction w arbitrary: b rule: length_induct)
  case (1 w)
  let ?x = "getProp (h c) g"
  let ?ob' = "AList.update (p @ g) ?x (AList.delete p (h a))"
  have ha: "h' a = ?ob'" and hb: "\<And>b. b \<noteq> a \<Longrightarrow> h' b = h b" by (simp_all add: h')
  from label_nonempty [OF pl] have pne: "p \<noteq> []" and phd: "hd p \<noteq> CHR ''_''" by auto
  from sg have glab: "g \<in> set (nodeProps (h c) False)" by (simp add: singletonNode_def)
  from label_nonempty [OF glab] have gne: "g \<noteq> []" by simp
  have pf': "prefixFree (h' b)" for b
  proof (cases "b = a")
    case True
    then show ?thesis using pf [of a] dk pl by (simp add: ha hoisted_prefixFree)
  next
    case False
    then show ?thesis by (simp add: hb pf)
  qed
  have labs: "set (nodeProps (h' a) False) = insert (p @ g) (set (nodeProps (h a) False) - {p})"
    unfolding ha using pl by (rule hoisted_labels)
  have gp: "getProp (h' a) k = (if k = p @ g then ?x else if k = p then Undef else getProp (h a) k)" for k
    unfolding ha by simp
  have IH: "isFragment h' u d = isFragment h u d" if "length u < length w" "clean u" for u d
    using 1(1) that by blast
  have IHd: "isFragment h' (drop (length q) w) d = isFragment h (drop (length q) w) d"
    if "q \<noteq> []" "w \<noteq> []" for q d
  proof -
    have "length (drop (length q) w) < length w" using that by (cases q) auto
    then show ?thesis using clean_drop [OF 1(2)] by (rule IH)
  qed
  show ?case
  proof (cases "w = []")
    case True
    have "isTerminal (h' b) = isTerminal (h b)"
      using pne by (cases "b = a") (simp_all add: hb isTerminal_def gp)
    with True show ?thesis by (simp add: isFragment_Nil)
  next
    case wne: False
    from clean_hd [OF 1(2) wne] have whd: "hd w \<noteq> CHR ''_''" .
    show ?thesis
    proof (cases "b = a")
      case False
      have "isFragment h' w b =
              (getProp (h b) w = Num 1 \<or>
               (\<exists>q d. q \<in> set (nodeProps (h b) False) \<and> getProp (h b) q = Obj d \<and>
                      matches q w \<and> isFragment h' (drop (length q) w) d))"
        using isFragment_step [of h' b w, OF pf' wne] by (simp add: hb [OF False])
      also have "\<dots> = (getProp (h b) w = Num 1 \<or>
               (\<exists>q d. q \<in> set (nodeProps (h b) False) \<and> getProp (h b) q = Obj d \<and>
                      matches q w \<and> isFragment h (drop (length q) w) d))"
        using IHd wne label_nonempty by (metis (no_types, lifting))
      also have "\<dots> = isFragment h w b"
        using isFragment_step [of h b w, OF pf wne] by simp
      finally show ?thesis .
    next
      case True
      show ?thesis
      proof (cases "hd w = hd p")
        case diff: False
        have n1: "w \<noteq> p" "w \<noteq> p @ g" using diff pne by auto
        have e: "(q \<in> set (nodeProps (h' a) False) \<and> getProp (h' a) q = Obj d \<and> matches q w) \<longleftrightarrow>
                 (q \<in> set (nodeProps (h a) False) \<and> getProp (h a) q = Obj d \<and> matches q w)" for q d
        proof (cases "matches q w \<and> q \<noteq> []")
          case True
          then have "hd q = hd w" using matches_hd by blast
          with diff pne have "q \<noteq> p" "q \<noteq> p @ g" by auto
          then show ?thesis by (simp add: labs gp)
        next
          case False
          then show ?thesis using label_nonempty by blast
        qed
        have "isFragment h' w a =
                (getProp (h a) w = Num 1 \<or>
                 (\<exists>q d. (q \<in> set (nodeProps (h' a) False) \<and> getProp (h' a) q = Obj d \<and> matches q w) \<and>
                        isFragment h' (drop (length q) w) d))"
          using isFragment_step [of h' a w, OF pf' wne] n1 by (simp add: gp)
        also have "\<dots> = (getProp (h a) w = Num 1 \<or>
                 (\<exists>q d. (q \<in> set (nodeProps (h a) False) \<and> getProp (h a) q = Obj d \<and> matches q w) \<and>
                        isFragment h (drop (length q) w) d))"
          unfolding e using IHd wne label_nonempty by (metis (no_types, lifting))
        also have "\<dots> = isFragment h w a"
          using isFragment_step [of h a w, OF pf wne] by simp
        finally show ?thesis using True by simp
      next
        case same: True
        text \<open>Before: the only entry with this first code unit is \<open>p\<close>.\<close>
        have only_p: "q = p" if "q \<in> set (nodeProps (h a) False)" "matches q w" for q
        proof -
          from label_nonempty [OF that(1)] matches_hd [OF that(2)] same have "hd q = hd p" by simp
          with pf [of a] that(1) pl show ?thesis by (rule prefixFree_same_head)
        qed
        have nb: "getProp (h a) w \<noteq> Num 1"
        proof
          assume n: "getProp (h a) w = Num 1"
          then have "w \<in> set (nodeProps (h a) False)" using 1(2) wne by (intro clean_key_is_label) auto
          with pf [of a] pl same have "w = p" by (intro prefixFree_same_head [of "h a"]) auto
          with n gc show False by simp
        qed
        have before: "isFragment h w a = (matches p w \<and> isFragment h (drop (length p) w) c)"
          unfolding isFragment_step [of h a w, OF pf wne] using nb only_p pl gc by auto
        text \<open>After: the only entry with this first code unit is \<open>p @ g\<close>.\<close>
        have only_pg: "q = p @ g" if "q \<in> set (nodeProps (h' a) False)" "matches q w" for q
        proof -
          from label_nonempty [OF that(1)] matches_hd [OF that(2)] same pne have "hd q = hd (p @ g)" by simp
          moreover have "p @ g \<in> set (nodeProps (h' a) False)" by (simp add: labs)
          ultimately show ?thesis using pf' [of a] that(1) by (intro prefixFree_same_head [of "h' a"]) auto
        qed
        have na: "getProp (h' a) w = Num 1 \<longleftrightarrow> w = p @ g \<and> ?x = Num 1"
        proof
          assume n: "getProp (h' a) w = Num 1"
          then have "w \<in> set (nodeProps (h' a) False)" using 1(2) wne by (intro clean_key_is_label) auto
          moreover have "p @ g \<in> set (nodeProps (h' a) False)" by (simp add: labs)
          moreover have "hd w = hd (p @ g)" using same pne by simp
          ultimately have "w = p @ g" using pf' [of a] by (intro prefixFree_same_head [of "h' a"]) auto
          with n show "w = p @ g \<and> ?x = Num 1" by (simp add: gp)
        next
          assume "w = p @ g \<and> ?x = Num 1"
          then show "getProp (h' a) w = Num 1" by (simp add: gp)
        qed
        have after: "isFragment h' w a =
            ((w = p @ g \<and> ?x = Num 1) \<or>
             (\<exists>d. ?x = Obj d \<and> matches (p @ g) w \<and> isFragment h (drop (length (p @ g)) w) d))"
        proof -
          have "(\<exists>q d. q \<in> set (nodeProps (h' a) False) \<and> getProp (h' a) q = Obj d \<and> matches q w \<and>
                   isFragment h' (drop (length q) w) d) \<longleftrightarrow>
                (\<exists>d. ?x = Obj d \<and> matches (p @ g) w \<and> isFragment h' (drop (length (p @ g)) w) d)"
            (is "?L \<longleftrightarrow> ?R")
          proof
            assume ?L
            then obtain q d where q: "q \<in> set (nodeProps (h' a) False)" "getProp (h' a) q = Obj d"
              "matches q w" "isFragment h' (drop (length q) w) d" by blast
            from only_pg [OF q(1,3)] have "q = p @ g" .
            with q show ?R by (auto simp: gp)
          next
            assume ?R
            then obtain d where d: "?x = Obj d" "matches (p @ g) w"
              "isFragment h' (drop (length (p @ g)) w) d" by blast
            have "p @ g \<in> set (nodeProps (h' a) False)" by (simp add: labs)
            moreover have "getProp (h' a) (p @ g) = Obj d" using d(1) by (simp add: gp)
            ultimately show ?L using d(2,3) by blast
          qed
          moreover have "isFragment h' (drop (length (p @ g)) w) d = isFragment h (drop (length (p @ g)) w) d" for d
            using IHd [of "p @ g" d] pne wne by simp
          ultimately show ?thesis
            unfolding isFragment_step [of h' a w, OF pf' wne] na by simp
        qed
        text \<open>The child in between accepted exactly the same.\<close>
        have child: "isFragment h (drop (length p) w) c =
            (drop (length p) w \<noteq> [] \<and>
             ((drop (length p) w = g \<and> ?x = Num 1) \<or>
              (\<exists>d. ?x = Obj d \<and> matches g (drop (length p) w) \<and>
                   isFragment h (drop (length g) (drop (length p) w)) d)))"
          using sg pf [of c] clean_drop [OF 1(2)] by (rule singleton_language)
        have m1: "matches p w \<and> drop (length p) w = g \<longleftrightarrow> w = p @ g"
          using matches_append_drop [of p w] matches_self [of p g] by auto
        have m2: "matches g u \<Longrightarrow> u \<noteq> []" for u
          using matches_hd [of g u] gne by blast
        have "isFragment h w a =
            ((w = p @ g \<and> ?x = Num 1) \<or>
             (\<exists>d. ?x = Obj d \<and> matches (p @ g) w \<and> isFragment h (drop (length (p @ g)) w) d))"
          unfolding before child matches_append
          using m1 m2 m2 [of "[]"] gne by (auto simp: add.commute)
        with after True show ?thesis by simp
      qed
    qed
  qed
qed

section \<open>The invariant of \<open>collapseChains\<close>\<close>

lemma langEq_refl: "langEq h h"
  by (simp add: langEq_def)

lemma langEq_trans: "langEq h h1 \<Longrightarrow> langEq h1 h2 \<Longrightarrow> langEq h h2"
  by (simp add: langEq_def)

lemma frameExcept_refl: "frameExcept A s s"
  by (simp add: frameExcept_def)

lemma frameExcept_trans:
  assumes "frameExcept A s s1" "frameExcept A s1 s2"
  shows "frameExcept A s s2"
proof -
  from assms have v: "vCur s1 = vCur s" by (simp add: frameExcept_def)
  from assms show ?thesis unfolding frameExcept_def v by (auto simp: subset_iff)
qed

lemma frameExcept_mono: "frameExcept A s s' \<Longrightarrow> A \<subseteq> B \<Longrightarrow> frameExcept B s s'"
  by (auto simp: frameExcept_def)

lemma hiddenSame_refl: "hiddenSame a s s"
  by (simp add: hiddenSame_def)

lemma hiddenSame_trans: "hiddenSame a s s1 \<Longrightarrow> hiddenSame a s1 s2 \<Longrightarrow> hiddenSame a s s2"
  by (simp add: hiddenSame_def)

lemma frame_hiddenSame:
  "frameExcept {} s s' \<Longrightarrow> a \<in> visitedSet (heap s) (vCur s) \<Longrightarrow> hiddenSame a s s'"
  by (simp add: frameExcept_def hiddenSame_def)

lemma hiddenSame_visited:
  "hiddenSame a s s' \<Longrightarrow> a \<in> visitedSet (heap s) v \<Longrightarrow> a \<in> visitedSet (heap s') v"
  by (simp add: hiddenSame_def visitedSet_def)

lemma hiddenSame_tagged: "hiddenSame a s s' \<Longrightarrow> tagged (heap s' a) = tagged (heap s a)"
  by (simp add: hiddenSame_def tagged_def)

lemma collapseInv_wellKeyed: "collapseInv s \<Longrightarrow> wellKeyed (heap s)"
  by (simp add: collapseInv_def)

lemma collapseInv_tagged:
  "collapseInv s \<Longrightarrow> tagged (heap s c) \<Longrightarrow>
   c \<in> visitedSet (heap s) (vCur s) \<and> singletonNode (heap s c) (toStr (getProp (heap s c) ''_g''))"
  by (simp add: collapseInv_def)

lemma wellKeyed_prefixFree: "wellKeyed h \<Longrightarrow> prefixFree (h b)"
  by (simp add: wellKeyed_def)

lemma wellKeyed_distinct: "wellKeyed h \<Longrightarrow> distinct (map fst (h b))"
  by (simp add: wellKeyed_def)

text \<open>Writing a bookkeeping field of one node.\<close>

lemma heap_setProp: "heap (setProp a k v s) = (heap s)(a := AList.update k v (heap s a))"
  by (simp add: setProp_def)

lemma setProp_fields [simp]:
  "vCur (setProp a k v s) = vCur s" "root (setProp a k v s) = root s"
  "vCur (delProp a k s) = vCur s" "root (delProp a k s) = root s"
  by (simp_all add: setProp_def delProp_def)

lemma hidden_write_entries:
  assumes "k \<noteq> []" "hd k = CHR ''_''"
  shows "nodeProps (heap (setProp a k v s) b) f = nodeProps (heap s b) f"
    and "isTerminal (heap (setProp a k v s) b) = isTerminal (heap s b)"
    and "distinct (map fst (heap s b)) \<Longrightarrow> distinct (map fst (heap (setProp a k v s) b))"
    and "prefixFree (heap (setProp a k v s) b) = prefixFree (heap s b)"
    and "singletonNode (heap (setProp a k v s) b) g = singletonNode (heap s b) g"
  using assms
  by (auto simp: heap_setProp nodeProps_update_hidden isTerminal_def AList.distinct_update
      prefixFree_def singletonNode_def)

lemma hidden_write_wellKeyed:
  "k \<noteq> [] \<Longrightarrow> hd k = CHR ''_'' \<Longrightarrow> wellKeyed (heap s) \<Longrightarrow> wellKeyed (heap (setProp a k v s))"
  unfolding wellKeyed_def by (simp add: hidden_write_entries)

lemma hidden_write_langEq:
  assumes "k \<noteq> []" "hd k = CHR ''_''"
  shows "langEq (heap s) (heap (setProp a k v s))"
  unfolding langEq_def
proof (intro allI impI)
  fix w b assume "clean w"
  then show "isFragment (heap (setProp a k v s)) w b = isFragment (heap s) w b"
  proof (rule isFragment_same_entries [rotated 2])
    show "nodeProps (heap (setProp a k v s) b) True = nodeProps (heap s b) True" for b
      using assms by (rule hidden_write_entries)
    show "getProp (heap (setProp a k v s) b) j = getProp (heap s b) j" if "j = [] \<or> hd j \<noteq> CHR ''_''" for b j
      using that assms by (auto simp: heap_setProp)
  qed
qed

text \<open>Line 185: stamping an unvisited node.\<close>

lemma mark_step:
  assumes inv: "collapseInv s" and nv: "a \<notin> visitedSet (heap s) (vCur s)"
  defines "s1 \<equiv> setProp a ''_v'' (Num (vCur s)) s"
  shows "collapseInv s1" "frameExcept {} s s1" "a \<in> visitedSet (heap s1) (vCur s)"
    "\<not> tagged (heap s1 a)" "langEq (heap s) (heap s1)"
proof -
  have vs: "visitedSet (heap s1) (vCur s) = insert a (visitedSet (heap s) (vCur s))"
    by (auto simp: s1_def visitedSet_def heap_setProp)
  have tg: "tagged (heap s1 c) = tagged (heap s c)" for c
    by (simp add: s1_def tagged_def heap_setProp)
  have gg: "getProp (heap s1 c) ''_g'' = getProp (heap s c) ''_g''" for c
    by (simp add: s1_def heap_setProp)
  have sn: "singletonNode (heap s1 c) g = singletonNode (heap s c) g" for c g
    unfolding s1_def by (rule hidden_write_entries) auto
  have wk: "wellKeyed (heap s1)"
    unfolding s1_def using collapseInv_wellKeyed [OF inv] by (intro hidden_write_wellKeyed) auto
  have v1: "vCur s1 = vCur s" by (simp add: s1_def)
  show "collapseInv s1"
    unfolding collapseInv_def v1 vs tg gg sn using wk collapseInv_tagged [OF inv] by auto
  show "frameExcept {} s s1"
    unfolding frameExcept_def vs using nv by (auto simp: s1_def heap_setProp)
  show "a \<in> visitedSet (heap s1) (vCur s)" by (simp add: vs)
  show "\<not> tagged (heap s1 a)" using nv collapseInv_tagged [OF inv, of a] by (auto simp: tg)
  show "langEq (heap s) (heap s1)" unfolding s1_def by (rule hidden_write_langEq) auto
qed

text \<open>Line 229: tagging a singleton.\<close>

lemma tag_step:
  assumes inv: "collapseInv s" and av: "a \<in> visitedSet (heap s) (vCur s)"
    and sg: "singletonNode (heap s a) q"
  defines "s1 \<equiv> setProp a ''_g'' (Str q) s"
  shows "collapseInv s1" "frameExcept {a} s s1" "langEq (heap s) (heap s1)"
proof -
  have vs: "visitedSet (heap s1) v = visitedSet (heap s) v" for v
    by (auto simp: s1_def visitedSet_def heap_setProp)
  have sn: "singletonNode (heap s1 c) g = singletonNode (heap s c) g" for c g
    unfolding s1_def by (rule hidden_write_entries) auto
  have wk: "wellKeyed (heap s1)"
    unfolding s1_def using collapseInv_wellKeyed [OF inv] by (intro hidden_write_wellKeyed) auto
  have v1: "vCur s1 = vCur s" by (simp add: s1_def)
  have "c \<in> visitedSet (heap s) (vCur s) \<and> singletonNode (heap s c) (toStr (getProp (heap s1 c) ''_g''))"
    if "tagged (heap s1 c)" for c
  proof (cases "c = a")
    case True
    with av sg show ?thesis by (simp add: s1_def heap_setProp)
  next
    case False
    with that have "tagged (heap s c)" "getProp (heap s1 c) ''_g'' = getProp (heap s c) ''_g''"
      by (simp_all add: s1_def tagged_def heap_setProp)
    with collapseInv_tagged [OF inv, of c] show ?thesis by simp
  qed
  then show "collapseInv s1" unfolding collapseInv_def v1 vs sn using wk by blast
  show "frameExcept {a} s s1" unfolding frameExcept_def vs by (auto simp: s1_def heap_setProp)
  show "langEq (heap s) (heap s1)" unfolding s1_def by (rule hidden_write_langEq) auto
qed

text \<open>Lines 221-225: hoisting the single entry of a tagged child.\<close>

lemma isHoistable_tagged: "isHoistable ob \<Longrightarrow> tagged ob"
  by (simp add: isHoistable_def tagged_def)

lemma card_hoisted:
  assumes "prefixFree ob" "p \<in> set (nodeProps ob False)"
  shows "card (insert (p @ g) (set (nodeProps ob False) - {p})) = card (set (nodeProps ob False))"
proof -
  let ?L = "set (nodeProps ob False)"
  have "p @ g \<notin> ?L - {p}"
  proof
    assume a: "p @ g \<in> ?L - {p}"
    from label_nonempty [OF assms(2)] have "hd (p @ g) = hd p" by simp
    with assms a have "p @ g = p" by (intro prefixFree_same_head [of ob]) auto
    with a show False by simp
  qed
  then have "card (insert (p @ g) (?L - {p})) = Suc (card (?L - {p}))" by simp
  also have "\<dots> = card ?L" using assms(2) card_gt_0_iff [of ?L] by (auto simp: Suc_pred)
  finally show ?thesis .
qed

lemma hoist_step:
  assumes inv: "collapseInv s1" and nodeV: "node \<in> visitedSet (heap s1) (vCur s1)"
    and nt: "\<not> tagged (heap s1 node)"
    and pl: "p \<in> set (nodeProps (heap s1 node) False)"
    and gc: "getProp (heap s1 node) p = Obj child"
    and hz: "isHoistable (heap s1 child)"
  defines "g \<equiv> toStr (getProp (heap s1 child) ''_g'')"
  defines "s3 \<equiv> setProp node (p @ g) (getProp (heap (delProp node p s1) child) g) (delProp node p s1)"
  shows "collapseInv s3" "frameExcept {node} s1 s3" "hiddenSame node s1 s3"
    "langEq (heap s1) (heap s3)"
    "set (nodeProps (heap s3 node) False) = insert (p @ g) (set (nodeProps (heap s1 node) False) - {p})"
    "length (nodeProps (heap s3 node) False) = length (nodeProps (heap s1 node) False)"
proof -
  let ?h = "heap s1"
  let ?x = "getProp (?h child) g"
  let ?ob' = "AList.update (p @ g) ?x (AList.delete p (?h node))"
  from collapseInv_tagged [OF inv isHoistable_tagged [OF hz]]
  have cv: "child \<in> visitedSet ?h (vCur s1)" and sg: "singletonNode (?h child) g"
    by (simp_all add: g_def)
  have cn: "child \<noteq> node" using nt isHoistable_tagged [OF hz] by auto
  have wk: "wellKeyed ?h" using inv by (rule collapseInv_wellKeyed)
  from label_nonempty [OF pl] have pne: "p \<noteq> []" and phd: "hd p \<noteq> CHR ''_''" by auto
  have h3: "heap s3 = ?h(node := ?ob')"
    using cn by (simp add: s3_def setProp_def delProp_def)
  have v3: "vCur s3 = vCur s1" "root s3 = root s1" by (simp_all add: s3_def)
  have hid: "getProp ?ob' k = getProp (?h node) k" if "k = [] \<or> hd k = CHR ''_''" for k
    using that pne phd by auto
  show hs: "hiddenSame node s1 s3" unfolding hiddenSame_def h3 using hid by simp
  have vs: "visitedSet (heap s3) v = visitedSet ?h v" for v
    unfolding visitedSet_def h3 using hid [of "''_v''"] by auto
  show fr: "frameExcept {node} s1 s3" unfolding frameExcept_def v3 vs by (simp add: h3)
  show labs: "set (nodeProps (heap s3 node) False) = insert (p @ g) (set (nodeProps (?h node) False) - {p})"
    unfolding h3 using hoisted_labels [OF pl] by simp
  have d3: "distinct (map fst (heap s3 b))" for b
    unfolding h3 using wellKeyed_distinct [OF wk] by (simp add: hoisted_distinct)
  have p3: "prefixFree (heap s3 b)" for b
    unfolding h3 using wellKeyed_prefixFree [OF wk] wellKeyed_distinct [OF wk] pl
    by (simp add: hoisted_prefixFree)
  have wk3: "wellKeyed (heap s3)" unfolding wellKeyed_def using d3 p3 by simp
  have "c \<in> visitedSet ?h (vCur s1) \<and> singletonNode (heap s3 c) (toStr (getProp (heap s3 c) ''_g''))"
    if "tagged (heap s3 c)" for c
  proof (cases "c = node")
    case True
    with that hiddenSame_tagged [OF hs] nt show ?thesis by simp
  next
    case False
    then have "heap s3 c = ?h c" by (simp add: h3)
    with that collapseInv_tagged [OF inv, of c] show ?thesis by simp
  qed
  then show "collapseInv s3" unfolding collapseInv_def v3 vs using wk3 by blast
  show "langEq ?h (heap s3)"
    unfolding langEq_def
  proof (intro allI impI)
    fix w b assume "clean w"
    with hoist_language [of ?h node p child g "heap s3", OF wellKeyed_prefixFree [OF wk]
        wellKeyed_distinct [OF wk] pl gc cn sg h3]
    show "isFragment (heap s3) w b = isFragment ?h w b" by simp
  qed
  have "length (nodeProps (heap s3 node) False) = card (set (nodeProps (heap s3 node) False))"
    using d3 [of node] by (simp add: distinct_card distinct_nodeProps)
  also have "\<dots> = card (set (nodeProps (?h node) False))"
    unfolding labs using wellKeyed_prefixFree [OF wk] pl by (rule card_hoisted)
  also have "\<dots> = length (nodeProps (?h node) False)"
    using wellKeyed_distinct [OF wk, of node] by (simp add: distinct_card distinct_nodeProps)
  finally show "length (nodeProps (heap s3 node) False) = length (nodeProps (?h node) False)" .
qed

section \<open>\<open>collapseChains\<close> keeps the invariant and the membership of clean words\<close>

lemma collapseOK_trans: "collapseOK A s s1 \<Longrightarrow> collapseOK A s1 s2 \<Longrightarrow> collapseOK A s s2"
  unfolding collapseOK_def using frameExcept_trans langEq_trans by blast

lemma collapseOK_mono: "collapseOK A s s' \<Longrightarrow> A \<subseteq> B \<Longrightarrow> collapseOK B s s'"
  unfolding collapseOK_def using frameExcept_mono by blast

lemma collapseOK_refl: "collapseInv s \<Longrightarrow> collapseOK A s s"
  by (simp add: collapseOK_def frameExcept_refl langEq_refl)

lemma frameExcept_vCur: "frameExcept A s s' \<Longrightarrow> vCur s' = vCur s"
  by (simp add: frameExcept_def)

lemma frameExcept_same: "frameExcept {} s s' \<Longrightarrow> b \<in> visitedSet (heap s) (vCur s) \<Longrightarrow> heap s' b = heap s b"
  by (simp add: frameExcept_def)

lemma frameExcept_visited:
  "frameExcept A s s' \<Longrightarrow> b \<in> visitedSet (heap s) (vCur s) \<Longrightarrow> b \<in> visitedSet (heap s') (vCur s)"
  by (auto simp: frameExcept_def)

lemma loopPost_extend:
  assumes step: "collapseOK {node} s sm" "hiddenSame node s sm"
    "length (nodeProps (heap sm node) False) = length (nodeProps (heap s node) False)"
    "q0 \<in> set (nodeProps (heap sm node) False)"
    and rest: "loopPost node rest (Str q0) sm pv' s'"
  shows "loopPost node (p # rest) pv s pv' s'"
proof -
  from rest have r: "collapseOK {node} sm s'" "hiddenSame node sm s'"
    "length (nodeProps (heap s' node) False) = length (nodeProps (heap sm node) False)"
    "rest = [] \<longrightarrow> pv' = Str q0 \<and> s' = sm"
    "rest \<noteq> [] \<longrightarrow> (\<exists>q. pv' = Str q \<and> q \<in> set (nodeProps (heap s' node) False))"
    by (simp_all add: loopPost_def)
  have "\<exists>q. pv' = Str q \<and> q \<in> set (nodeProps (heap s' node) False)"
    using r(4,5) step(4) by (cases "rest = []") auto
  then show ?thesis
    unfolding loopPost_def
    using collapseOK_trans [OF step(1) r(1)] hiddenSame_trans [OF step(2) r(2)] r(3) step(3)
    by simp
qed

lemma collapseLoop_ok:
  assumes chain: "\<And>a s s'. collapseChains n a s = Some s' \<Longrightarrow> collapseInv s \<Longrightarrow>
                    collapseOK {} s s'"
  shows "collapseLoop n node props pv s = Some (pv', s') \<Longrightarrow> collapseInv s \<Longrightarrow>
         node \<in> visitedSet (heap s) (vCur s) \<Longrightarrow> \<not> tagged (heap s node) \<Longrightarrow>
         distinct props \<Longrightarrow> set props \<subseteq> set (nodeProps (heap s node) False) \<Longrightarrow>
         loopPost node props pv s pv' s'"
proof (induction props arbitrary: pv s)
  case Nil
  then show ?case
    by (simp add: loopPost_def collapseOK_refl hiddenSame_refl)
next
  case (Cons p props)
  note inv = Cons.prems(2) and nodeV = Cons.prems(3) and nt = Cons.prems(4)
  from Cons.prems(5) have dp: "distinct props" and pn: "p \<notin> set props" by auto
  from Cons.prems(6) have pl: "p \<in> set (nodeProps (heap s node) False)"
    and sub: "set props \<subseteq> set (nodeProps (heap s node) False)" by auto
  show ?case
  proof (cases "getProp (heap s node) p")
    case (Obj child)
    with Cons.prems(1) obtain s1 where
      c: "collapseChains n child s = Some s1" and
      l: "(let g = getProp (heap s1 child) ''_g'' in
           if isHoistable (heap s1 child)
           then (let s2 = delProp node p s1; prop2 = p @ toStr g
                 in collapseLoop n node props (Str prop2)
                      (setProp node prop2 (getProp (heap s2 child) (toStr g)) s2))
           else collapseLoop n node props (Str p) s1) = Some (pv', s')"
      by (auto split: option.splits)
    from chain [OF c inv] have ok1: "collapseOK {} s s1" .
    then have inv1: "collapseInv s1" and fr1: "frameExcept {} s s1" by (simp_all add: collapseOK_def)
    have v1: "vCur s1 = vCur s" using fr1 by (rule frameExcept_vCur)
    have same: "heap s1 node = heap s node" using fr1 nodeV by (rule frameExcept_same)
    have nodeV1: "node \<in> visitedSet (heap s1) (vCur s1)"
      unfolding v1 using fr1 nodeV by (rule frameExcept_visited)
    have nt1: "\<not> tagged (heap s1 node)" using nt by (simp add: same)
    have hs1: "hiddenSame node s s1" by (simp add: hiddenSame_def same)
    have ok1': "collapseOK {node} s s1" using ok1 by (rule collapseOK_mono) simp
    show ?thesis
    proof (cases "isHoistable (heap s1 child)")
      case True
      let ?g = "toStr (getProp (heap s1 child) ''_g'')"
      let ?s3 = "setProp node (p @ ?g) (getProp (heap (delProp node p s1) child) ?g) (delProp node p s1)"
      from l True have l3: "collapseLoop n node props (Str (p @ ?g)) ?s3 = Some (pv', s')"
        by (simp add: Let_def)
      have pl1: "p \<in> set (nodeProps (heap s1 node) False)" using pl by (simp add: same)
      have gc1: "getProp (heap s1 node) p = Obj child" using Obj by (simp add: same)
      note hst = hoist_step [OF inv1 nodeV1 nt1 pl1 gc1 True]
      have v3: "vCur ?s3 = vCur s1" by simp
      have nodeV3: "node \<in> visitedSet (heap ?s3) (vCur ?s3)"
        unfolding v3 using hst(3) nodeV1 by (rule hiddenSame_visited)
      have nt3: "\<not> tagged (heap ?s3 node)" using nt1 hiddenSame_tagged [OF hst(3)] by simp
      have sub3: "set props \<subseteq> set (nodeProps (heap ?s3 node) False)"
        unfolding hst(5) using sub pn by (auto simp: same)
      from Cons.IH [OF l3 hst(1) nodeV3 nt3 dp sub3]
      have post: "loopPost node props (Str (p @ ?g)) ?s3 pv' s'" .
      have "collapseOK {node} s ?s3"
        using ok1' hst(1,2,4) by (intro collapseOK_trans [OF ok1']) (simp add: collapseOK_def)
      moreover have "hiddenSame node s ?s3" using hs1 hst(3) by (rule hiddenSame_trans)
      moreover have "length (nodeProps (heap ?s3 node) False) = length (nodeProps (heap s node) False)"
        using hst(6) by (simp add: same)
      moreover have "p @ ?g \<in> set (nodeProps (heap ?s3 node) False)" unfolding hst(5) by simp
      ultimately show ?thesis using post by (rule loopPost_extend)
    next
      case False
      with l have l1: "collapseLoop n node props (Str p) s1 = Some (pv', s')" by (simp add: Let_def)
      have sub1: "set props \<subseteq> set (nodeProps (heap s1 node) False)" using sub by (simp add: same)
      from Cons.IH [OF l1 inv1 nodeV1 nt1 dp sub1]
      have post: "loopPost node props (Str p) s1 pv' s'" .
      show ?thesis
        by (rule loopPost_extend [OF ok1' hs1 _ _ post]) (simp_all add: same pl)
    qed
  next
    case (Num x)
    with Cons.prems(1) have l0: "collapseLoop n node props (Str p) s = Some (pv', s')" by simp
    from Cons.IH [OF l0 inv nodeV nt dp sub] have post: "loopPost node props (Str p) s pv' s'" .
    show ?thesis
      by (rule loopPost_extend [OF collapseOK_refl [OF inv] hiddenSame_refl _ pl post]) simp
  next
    case (Str x)
    with Cons.prems(1) have l0: "collapseLoop n node props (Str p) s = Some (pv', s')" by simp
    from Cons.IH [OF l0 inv nodeV nt dp sub] have post: "loopPost node props (Str p) s pv' s'" .
    show ?thesis
      by (rule loopPost_extend [OF collapseOK_refl [OF inv] hiddenSame_refl _ pl post]) simp
  next
    case Undef
    with Cons.prems(1) have l0: "collapseLoop n node props (Str p) s = Some (pv', s')" by simp
    from Cons.IH [OF l0 inv nodeV nt dp sub] have post: "loopPost node props (Str p) s pv' s'" .
    show ?thesis
      by (rule loopPost_extend [OF collapseOK_refl [OF inv] hiddenSame_refl _ pl post]) simp
  qed
qed

lemma collapseChains_ok:
  "collapseChains n a s = Some s' \<Longrightarrow> collapseInv s \<Longrightarrow> collapseOK {} s s'"
proof (induction n arbitrary: a s s')
  case 0
  then show ?case by simp
next
  case (Suc n)
  note inv = Suc.prems(2)
  show ?case
  proof (cases "a \<in> visitedSet (heap s) (vCur s)")
    case True
    then have "visited a s = (True, s)" by (simp add: visited_def visitedSet_def)
    with Suc.prems(1) have "s' = s" by simp
    with inv show ?thesis by (simp add: collapseOK_refl)
  next
    case False
    let ?s1 = "setProp a ''_v'' (Num (vCur s)) s"
    let ?props = "nodeProps (heap ?s1 a) False"
    from False have vis: "visited a s = (False, ?s1)" by (simp add: visited_def visitedSet_def)
    note mk = mark_step [OF inv False]
    have ok1: "collapseOK {} s ?s1" using mk(1,2,5) by (simp add: collapseOK_def)
    from Suc.prems(1) vis obtain pv s2 where
      l: "collapseLoop n a ?props Undef ?s1 = Some (pv, s2)" and
      e: "s' = (if length ?props = 1 \<and> \<not> isTerminal (heap s2 a) then setProp a ''_g'' pv s2 else s2)"
      by (auto simp: Let_def split: option.splits)
    have v1: "vCur ?s1 = vCur s" by simp
    have aV1: "a \<in> visitedSet (heap ?s1) (vCur ?s1)" unfolding v1 by (rule mk(3))
    have dp: "distinct ?props"
      using wellKeyed_distinct [OF collapseInv_wellKeyed [OF mk(1)]] by (rule distinct_nodeProps)
    from collapseLoop_ok [OF Suc.IH l mk(1) aV1 mk(4) dp subset_refl]
    have post: "loopPost a ?props Undef ?s1 pv s2" by simp
    then have ok2: "collapseOK {a} ?s1 s2" and hs2: "hiddenSame a ?s1 s2"
      and len: "length (nodeProps (heap s2 a) False) = length ?props"
      and q: "?props \<noteq> [] \<longrightarrow> (\<exists>q. pv = Str q \<and> q \<in> set (nodeProps (heap s2 a) False))"
      by (simp_all add: loopPost_def)
    from ok2 have inv2: "collapseInv s2" and fr2: "frameExcept {a} ?s1 s2" by (simp_all add: collapseOK_def)
    have v2: "vCur s2 = vCur s" using frameExcept_vCur [OF fr2] by simp
    have aV2: "a \<in> visitedSet (heap s2) (vCur s2)"
      unfolding v2 using hs2 mk(3) by (rule hiddenSame_visited)
    have ok12: "collapseOK {a} s s2"
      using collapseOK_mono [OF ok1, of "{a}"] ok2 by (intro collapseOK_trans [of "{a}" s ?s1 s2]) auto
    have ok_final: "collapseOK {a} s s'"
    proof (cases "length ?props = 1 \<and> \<not> isTerminal (heap s2 a)")
      case True
      then have "?props \<noteq> []" by auto
      with q obtain q0 where q0: "pv = Str q0" "q0 \<in> set (nodeProps (heap s2 a) False)" by auto
      from True len have "length (nodeProps (heap s2 a) False) = 1" by simp
      with q0(2) have "nodeProps (heap s2 a) False = [q0]"
        by (cases "nodeProps (heap s2 a) False") auto
      with True have sg: "singletonNode (heap s2 a) q0" by (simp add: singletonNode_def)
      note tg = tag_step [OF inv2 aV2 sg]
      have "s' = setProp a ''_g'' (Str q0) s2" using e True q0 by simp
      with tg have "collapseOK {a} s2 s'" by (simp add: collapseOK_def)
      with ok12 show ?thesis by (rule collapseOK_trans)
    next
      case False
      with e have "s' = s2" by auto
      with ok12 show ?thesis by simp
    qed
    then have "collapseInv s'" "langEq (heap s) (heap s')" "frameExcept {a} s s'"
      by (simp_all add: collapseOK_def)
    moreover from this(3) False have "frameExcept {} s s'" by (auto simp: frameExcept_def)
    ultimately show ?thesis by (simp add: collapseOK_def)
  qed
qed

section \<open>From the inserts to the start of \<open>collapseChains\<close>\<close>

lemma insertInv_wellKeyed: "insertInv s \<Longrightarrow> wellKeyed (heap s)"
  by (simp add: insertInv_def wellKeyed_def keysOK_prefixFree keysOK_def)

lemma beforeCollapse_collapseInv:
  assumes "insertInv s" and "beforeCollapse fuel s = Some s3"
  shows "collapseInv s3"
proof -
  from assms(2) obtain r s1 s2 where
    c: "combineSuffixNode fuel (root s) s = Some (r, s1)" and
    d: "countDegree fuel (root s) (prepDFS s1) = Some s2" and
    e: "s3 = prepDFS s2"
    by (rule beforeCollapse_steps)
  from c assms(1) have i1: "insertInv s1" by (rule combineSuffixNode_insertInv)
  have h: "hiddenStep countKeys (prepDFS s1) s2" using d by (rule countDegree_hidden)
  have "wellKeyed (heap (prepDFS s1))" using insertInv_wellKeyed [OF i1] by (simp add: prepDFS_def)
  with h have wk: "wellKeyed (heap s2)" by (rule hiddenStep_wellKeyed)
  have "getProp (heap s2 a) ''_g'' = Undef" for a
  proof -
    have "getProp (heap s2 a) ''_g'' = getProp (heap (prepDFS s1) a) ''_g''"
      using h by (rule hiddenStep_getProp) simp
    also have "\<dots> = Undef" using i1 by (simp add: prepDFS_def insertInv_def keysOK_fresh)
    finally show ?thesis .
  qed
  then show ?thesis using wk by (simp add: collapseInv_def tagged_def e prepDFS_def)
qed

lemma optimize_steps:
  "optimize fuel s = Some t \<longleftrightarrow>
     (\<exists>s3. beforeCollapse fuel s = Some s3 \<and> collapseChains fuel (root s3) s3 = Some t)"
  by (auto simp: optimize_def split: option.splits)

text \<open>
  Claim C1, amended: for every sequence of inserts and every query word without an
  underscore, \<open>collapseChains\<close>, run as the last step of \<open>optimize\<close>, does not change
  \<open>isWord\<close>.
\<close>

theorem collapse_keeps_membership:
  assumes "insertWords fuel ws newTrie = Some s"
    and "beforeCollapse fuel' s = Some s3" and "optimize fuel' s = Some s4"
    and "CHR ''_'' \<notin> set w"
  shows "isWord s4 w = isWord s3 w"
proof -
  from assms(2,3) have run: "collapseChains fuel' (root s3) s3 = Some s4"
    by (simp add: optimize_steps)
  have "insertInv s" using assms(1) insertInv_newTrie by (rule insertWords_insertInv)
  then have "collapseInv s3" using assms(2) by (rule beforeCollapse_collapseInv)
  with run have ok: "collapseOK {} s3 s4" by (rule collapseChains_ok)
  then have "root s4 = root s3" and "langEq (heap s3) (heap s4)"
    by (simp_all add: collapseOK_def frameExcept_def)
  with assms(4) show ?thesis by (simp add: isWord_def langEq_def clean_def)
qed

theorem collapse_keeps_membership_witness:
  "insertWords 0 [''ab''] newTrie = Some trie_ab \<and>
   beforeCollapse (Suc (Suc 0)) trie_ab = Some trie_ab_counted \<and>
   (\<exists>s4. optimize (Suc (Suc 0)) trie_ab = Some s4 \<and> CHR ''_'' \<notin> set ''ab'' \<and>
         isWord s4 ''ab'' = isWord trie_ab_counted ''ab'' \<and> isWord s4 ''ab'')"
proof -
  obtain s4 where o: "optimize (Suc (Suc 0)) trie_ab = Some s4" and m: "isWord s4 ''ab''"
    by (simp add: ev_build ev_opt ev_query trie_ab_def)
  have c: "CHR ''_'' \<notin> set ''ab''" by simp
  from collapse_keeps_membership [OF build_ab count_ab o c] build_ab count_ab o m c
  show ?thesis by blast
qed



section \<open>Which children are fused\<close>

lemma collapseLoopLog_project:
  assumes chain: "\<And>a s. collapseChains n a s = map_option fst (collapseChainsLog n a s)"
  shows "collapseLoop n node props pv s =
           map_option (\<lambda>(pv2, s2, fused). (pv2, s2)) (collapseLoopLog n node props pv s)"
proof (induction props arbitrary: pv s)
  case Nil
  show ?case by simp
next
  case (Cons p props)
  show ?case
    by (cases "getProp (heap s node) p")
       (auto simp: chain Cons.IH Let_def split: option.splits)
qed

lemma collapseChainsLog_project:
  "collapseChains n a s = map_option fst (collapseChainsLog n a s)"
proof (induction n arbitrary: a s)
  case 0
  show ?case by simp
next
  case (Suc n)
  show ?case
    by (auto simp: collapseLoopLog_project [OF Suc.IH] Let_def split: prod.splits option.splits bool.splits)
qed

lemma hoistable_fusedOK:
  assumes "collapseInv s" "isHoistable (heap s c)"
  shows "fusedOK (heap s c)"
proof -
  let ?t = "getProp (heap s c) ''_g''"
  from collapseInv_tagged [OF assms(1) isHoistable_tagged [OF assms(2)]]
  have sg: "singletonNode (heap s c) (toStr ?t)" by simp
  from assms(2) have "getProp (heap s c) ''_d'' = Num 1 \<or> length (toStr ?t) = 1"
    by (cases ?t) (auto simp: isHoistable_def)
  with sg show ?thesis unfolding fusedOK_def by blast
qed

lemma collapseLoopLog_fused:
  assumes chain: "\<And>a s s' fused. collapseChainsLog n a s = Some (s', fused) \<Longrightarrow> collapseInv s \<Longrightarrow>
                    \<forall>ob\<in>set fused. fusedOK ob"
  shows "collapseLoopLog n node props pv s = Some (pv', s', fused) \<Longrightarrow> collapseInv s \<Longrightarrow>
         node \<in> visitedSet (heap s) (vCur s) \<Longrightarrow> \<not> tagged (heap s node) \<Longrightarrow>
         distinct props \<Longrightarrow> set props \<subseteq> set (nodeProps (heap s node) False) \<Longrightarrow>
         \<forall>ob\<in>set fused. fusedOK ob"
proof (induction props arbitrary: pv s fused)
  case Nil
  then show ?case by simp
next
  case (Cons p props)
  note inv = Cons.prems(2) and nodeV = Cons.prems(3) and nt = Cons.prems(4)
  from Cons.prems(5) have dp: "distinct props" and pn: "p \<notin> set props" by auto
  from Cons.prems(6) have pl: "p \<in> set (nodeProps (heap s node) False)"
    and sub: "set props \<subseteq> set (nodeProps (heap s node) False)" by auto
  show ?case
  proof (cases "getProp (heap s node) p")
    case (Obj child)
    with Cons.prems(1) obtain s1 fused1 where
      c: "collapseChainsLog n child s = Some (s1, fused1)"
      by (auto split: option.splits)
    from c have cp: "collapseChains n child s = Some s1" by (simp add: collapseChainsLog_project)
    from chain [OF c inv] have f1: "\<forall>ob\<in>set fused1. fusedOK ob" .
    from collapseChains_ok [OF cp inv] have inv1: "collapseInv s1" and fr1: "frameExcept {} s s1"
      by (simp_all add: collapseOK_def)
    have v1: "vCur s1 = vCur s" using fr1 by (rule frameExcept_vCur)
    have same: "heap s1 node = heap s node" using fr1 nodeV by (rule frameExcept_same)
    have nodeV1: "node \<in> visitedSet (heap s1) (vCur s1)"
      unfolding v1 using fr1 nodeV by (rule frameExcept_visited)
    have nt1: "\<not> tagged (heap s1 node)" using nt by (simp add: same)
    show ?thesis
    proof (cases "isHoistable (heap s1 child)")
      case True
      let ?g = "toStr (getProp (heap s1 child) ''_g'')"
      let ?s3 = "setProp node (p @ ?g) (getProp (heap (delProp node p s1) child) ?g) (delProp node p s1)"
      from Cons.prems(1) Obj c True obtain fused2 where
        l3: "collapseLoopLog n node props (Str (p @ ?g)) ?s3 = Some (pv', s', fused2)" and
        fe: "fused = fused1 @ heap s1 child # fused2"
        by (auto simp: Let_def split: option.splits)
      have pl1: "p \<in> set (nodeProps (heap s1 node) False)" using pl by (simp add: same)
      have gc1: "getProp (heap s1 node) p = Obj child" using Obj by (simp add: same)
      note hst = hoist_step [OF inv1 nodeV1 nt1 pl1 gc1 True]
      have v3: "vCur ?s3 = vCur s1" by simp
      have nodeV3: "node \<in> visitedSet (heap ?s3) (vCur ?s3)"
        unfolding v3 using hst(3) nodeV1 by (rule hiddenSame_visited)
      have nt3: "\<not> tagged (heap ?s3 node)" using nt1 hiddenSame_tagged [OF hst(3)] by simp
      have sub3: "set props \<subseteq> set (nodeProps (heap ?s3 node) False)"
        unfolding hst(5) using sub pn by (auto simp: same)
      from Cons.IH [OF l3 hst(1) nodeV3 nt3 dp sub3] have f2: "\<forall>ob\<in>set fused2. fusedOK ob" .
      from hoistable_fusedOK [OF inv1 True] f1 f2 show ?thesis by (auto simp: fe)
    next
      case False
      from Cons.prems(1) Obj c False obtain fused2 where
        l1: "collapseLoopLog n node props (Str p) s1 = Some (pv', s', fused2)" and
        fe: "fused = fused1 @ fused2"
        by (auto simp: Let_def split: option.splits)
      have sub1: "set props \<subseteq> set (nodeProps (heap s1 node) False)" using sub by (simp add: same)
      from Cons.IH [OF l1 inv1 nodeV1 nt1 dp sub1] f1 show ?thesis by (auto simp: fe)
    qed
  next
    case (Num x)
    with Cons.prems(1) have "collapseLoopLog n node props (Str p) s = Some (pv', s', fused)" by simp
    from Cons.IH [OF this inv nodeV nt dp sub] show ?thesis .
  next
    case (Str x)
    with Cons.prems(1) have "collapseLoopLog n node props (Str p) s = Some (pv', s', fused)" by simp
    from Cons.IH [OF this inv nodeV nt dp sub] show ?thesis .
  next
    case Undef
    with Cons.prems(1) have "collapseLoopLog n node props (Str p) s = Some (pv', s', fused)" by simp
    from Cons.IH [OF this inv nodeV nt dp sub] show ?thesis .
  qed
qed

lemma collapseChainsLog_fused:
  "collapseChainsLog n a s = Some (s', fused) \<Longrightarrow> collapseInv s \<Longrightarrow> \<forall>ob\<in>set fused. fusedOK ob"
proof (induction n arbitrary: a s s' fused)
  case 0
  then show ?case by simp
next
  case (Suc n)
  note inv = Suc.prems(2)
  show ?case
  proof (cases "a \<in> visitedSet (heap s) (vCur s)")
    case True
    then have "visited a s = (True, s)" by (simp add: visited_def visitedSet_def)
    with Suc.prems(1) show ?thesis by auto
  next
    case False
    let ?s1 = "setProp a ''_v'' (Num (vCur s)) s"
    let ?props = "nodeProps (heap ?s1 a) False"
    from False have vis: "visited a s = (False, ?s1)" by (simp add: visited_def visitedSet_def)
    note mk = mark_step [OF inv False]
    from Suc.prems(1) vis obtain pv s2 where
      l: "collapseLoopLog n a ?props Undef ?s1 = Some (pv, s2, fused)"
      by (auto simp: Let_def split: option.splits)
    have v1: "vCur ?s1 = vCur s" by simp
    have aV1: "a \<in> visitedSet (heap ?s1) (vCur ?s1)" unfolding v1 by (rule mk(3))
    have dp: "distinct ?props"
      using wellKeyed_distinct [OF collapseInv_wellKeyed [OF mk(1)]] by (rule distinct_nodeProps)
    from collapseLoopLog_fused [OF Suc.IH l mk(1) aV1 mk(4) dp subset_refl] show ?thesis by simp
  qed
qed

section \<open>The node handed to the canonicalizer\<close>








section \<open>Inserting the same word again\<close>

lemma jsKeys_single: "jsKeys [(k, v)] = [k]"
  by (simp add: jsKeys_def)

lemma addTerminal_counters:
  "addTerminal node w (s\<lparr> wordCount := j, lastWord := l \<rparr>) =
     (addTerminal node w s)\<lparr> wordCount := j, lastWord := l \<rparr>"
proof (induction node w s rule: addTerminal_induct)
  case (step node w s)
  show ?case
  proof (cases "length w \<le> 1")
    case True
    then show ?thesis by (simp add: addTerminal_short setProp_def)
  next
    case False
    have "setProp node [hd w] (Obj (nextAddr s)) (snd (newObject s))\<lparr> wordCount := j, lastWord := l \<rparr> =
          setProp node [hd w] (Obj (nextAddr (s\<lparr> wordCount := j, lastWord := l \<rparr>)))
            (snd (newObject (s\<lparr> wordCount := j, lastWord := l \<rparr>)))"
      by (simp add: setProp_def newObject_def)
    with step [OF False] False show ?thesis
      by (simp add: addTerminal_long)
  qed
qed

lemma addTerminal_heap_node_short:
  "length w \<le> 1 \<Longrightarrow> heap (addTerminal node w s) node = AList.update w (Num 1) (heap s node)"
  by (simp add: addTerminal_short setProp_def)

text \<open>
  \<open>_insert\<close> of a word at a node that \<open>addTerminal\<close> has just filled with that word, from
  empty, walks the chain and changes nothing but, for the empty word, the word count.
\<close>

lemma reinsert_after_addTerminal:
  "heap s node = [] \<Longrightarrow> node < nextAddr s \<Longrightarrow>
   \<exists>k. insert_at w node ((addTerminal node w s)\<lparr> wordCount := j \<rparr>) =
        (addTerminal node w s)\<lparr> wordCount := k \<rparr>"
proof (induction node w s rule: addTerminal_induct)
  case (step node w s)
  let ?S = "(addTerminal node w s)\<lparr> wordCount := j \<rparr>"
  show ?case
  proof (cases "length w \<le> 1")
    case True
    then have hn: "heap (addTerminal node w s) node = [(w, Num 1)]"
      using step(2) by (simp add: addTerminal_heap_node_short)
    show ?thesis
    proof (cases w)
      case Nil
      have f: "find (\<lambda>p. commonPrefix w p \<noteq> []) (jsKeys (heap ?S node)) = None"
        by (simp add: Nil find_None_iff)
      have "addTerminal node w ?S = ?S"
        using hn Nil by (simp add: addTerminal_short setProp_def)
      with insert_at_none [OF f] show ?thesis by auto
    next
      case (Cons c r)
      with True have w: "w = [c]" by simp
      have f: "find (\<lambda>p. commonPrefix w p \<noteq> []) (jsKeys (heap ?S node)) = Some w"
        using hn by (simp add: jsKeys_single w)
      have "insert_at w node ?S = ?S"
        using hn by (intro insert_at_duplicate [OF f]) (simp_all add: getProp_def)
      then show ?thesis by auto
    qed
  next
    case False
    let ?n = "nextAddr s"
    let ?mid = "setProp node [hd w] (Obj ?n) (snd (newObject s))"
    have al: "addTerminal node w s = addTerminal ?n (tl w) ?mid"
      using False by (rule addTerminal_long)
    have hn: "heap (addTerminal node w s) node = [([hd w], Obj ?n)]"
      using addTerminal_heap_node_long [of w node s] False step(2,3) by simp
    have w: "w = hd w # tl w" using False by (cases w) auto
    have cp: "commonPrefix w [hd w] = [hd w]" by (subst w) simp
    have f: "find (\<lambda>p. commonPrefix w p \<noteq> []) (jsKeys (heap ?S node)) = Some [hd w]"
      using hn by (simp add: jsKeys_single cp)
    have "insert_at w node ?S = insert_at (drop (length [hd w]) w) ?n ?S"
      using hn by (intro insert_at_descend [OF f]) (simp_all add: cp getProp_def)
    also have "drop (length [hd w]) w = tl w" by (simp add: drop_Suc)
    finally have d: "insert_at w node ?S = insert_at (tl w) ?n ?S" .
    have "heap ?mid ?n = []" "?n < nextAddr ?mid"
      using step(3) by (auto simp: setProp_def newObject_def)
    from step(1) [OF False this] obtain k where
      "insert_at (tl w) ?n ((addTerminal ?n (tl w) ?mid)\<lparr> wordCount := j \<rparr>) =
         (addTerminal ?n (tl w) ?mid)\<lparr> wordCount := k \<rparr>" by blast
    with d al show ?thesis by auto
  qed
qed

lemma firstInsert_eq: "insert_word fuel w newTrie = Some (firstInsert w)"
proof -
  have "insert_at w 0 newTrie = (addTerminal 0 w newTrie)\<lparr> wordCount := Suc 0 \<rparr>"
    by (subst insert_at.simps) (simp add: jsKeys_def)
  then show ?thesis
    by (simp add: insert_first firstInsert_def addTerminal_counters)
qed

lemma reinsert_firstInsert:
  "\<exists>k. insert_word fuel w ((firstInsert w)\<lparr> wordCount := j \<rparr>) = Some ((firstInsert w)\<lparr> wordCount := k \<rparr>)"
proof -
  let ?s0 = "newTrie\<lparr> wordCount := 1, lastWord := w \<rparr>"
  have "heap ?s0 0 = []" "0 < nextAddr ?s0" by simp_all
  from reinsert_after_addTerminal [OF this, of w j] obtain k where
    k: "insert_at w 0 ((firstInsert w)\<lparr> wordCount := j \<rparr>) = (firstInsert w)\<lparr> wordCount := k \<rparr>"
    by (auto simp: firstInsert_def)
  have r: "root ((firstInsert w)\<lparr> wordCount := j \<rparr>) = 0" and l: "lastWord (firstInsert w) = w"
    by (simp_all add: firstInsert_def addTerminal_fields)
  have "commonPrefix w w = w" by (induction w) auto
  then have "insert_word fuel w ((firstInsert w)\<lparr> wordCount := j \<rparr>) =
          Some ((firstInsert w)\<lparr> wordCount := k, lastWord := w \<rparr>)"
    by (simp add: insert_word_def Let_def r k l)
  moreover have "(firstInsert w)\<lparr> wordCount := k, lastWord := w \<rparr> = (firstInsert w)\<lparr> wordCount := k \<rparr>"
    using l by (cases "firstInsert w") auto
  ultimately show ?thesis by auto
qed

lemma reinsert_many:
  "\<exists>k. insertWords fuel (replicate n w) ((firstInsert w)\<lparr> wordCount := j \<rparr>) =
        Some ((firstInsert w)\<lparr> wordCount := k \<rparr>)"
proof (induction n arbitrary: j)
  case 0
  show ?case by auto
next
  case (Suc n)
  from reinsert_firstInsert [of fuel w j] obtain k where
    "insert_word fuel w ((firstInsert w)\<lparr> wordCount := j \<rparr>) = Some ((firstInsert w)\<lparr> wordCount := k \<rparr>)"
    by blast
  with Suc [of k] show ?case by auto
qed

text \<open>
  Inserting a word again, any number of times, directly after it was inserted into a fresh
  builder leaves the trie as the first insert left it (only the word count may differ), so
  \<open>isWord\<close> answers every query as after the first insert. This holds for every word,
  also one with an underscore.
\<close>

lemma repeated_insert_fresh_builder:
  "\<exists>s1 k. insertWords fuel [w] newTrie = Some s1 \<and>
          insertWords fuel (w # replicate n w) newTrie = Some (s1\<lparr> wordCount := k \<rparr>) \<and>
          (\<forall>q. isWord (s1\<lparr> wordCount := k \<rparr>) q = isWord s1 q)"
proof -
  have 1: "insertWords fuel [w] newTrie = Some (firstInsert w)" by (simp add: firstInsert_eq)
  have e: "(firstInsert w)\<lparr> wordCount := wordCount (firstInsert w) \<rparr> = firstInsert w" by simp
  from reinsert_many [of fuel n w "wordCount (firstInsert w)"] obtain k where
    "insertWords fuel (replicate n w) (firstInsert w) = Some ((firstInsert w)\<lparr> wordCount := k \<rparr>)"
    unfolding e by blast
  then have 2: "insertWords fuel (w # replicate n w) newTrie = Some ((firstInsert w)\<lparr> wordCount := k \<rparr>)"
    by (simp add: firstInsert_eq)
  have 3: "\<forall>q. isWord ((firstInsert w)\<lparr> wordCount := k \<rparr>) q = isWord (firstInsert w) q"
    by (simp add: isWord_def)
  from 1 2 3 show ?thesis by blast
qed

section \<open>Values held by the entries while words without underscore are inserted\<close>

lemma valuesOK_Nil [simp]: "valuesOK []"
  by (simp add: valuesOK_def)

lemma valuesOK_update:
  "valuesOK ob \<Longrightarrow> k = ''_c'' \<or> v = Num 1 \<or> (k \<noteq> [] \<and> isObject v) \<Longrightarrow> valuesOK (AList.update k v ob)"
  by (auto simp: valuesOK_def AList.update_conv')

lemma valuesOK_delete: "valuesOK ob \<Longrightarrow> valuesOK (AList.delete k ob)"
  by (auto simp: valuesOK_def AList.delete_conv')

lemma cleanInv_fields [simp]:
  "cleanInv (s\<lparr> wordCount := n \<rparr>) = cleanInv s"
  "cleanInv (s\<lparr> lastWord := w \<rparr>) = cleanInv s"
  "cleanInv (s\<lparr> suffixes := sf \<rparr>) = cleanInv s"
  "cleanInv (s\<lparr> cNext := c \<rparr>) = cleanInv s"
  by (simp_all add: cleanInv_def)

lemma cleanInv_setProp:
  "cleanInv s \<Longrightarrow> length k \<le> 1 \<or> k = ''_c'' \<Longrightarrow>
   k = ''_c'' \<or> v = Num 1 \<or> (k \<noteq> [] \<and> isObject v) \<Longrightarrow> cleanInv (setProp a k v s)"
  unfolding cleanInv_def by (simp add: insertInv_setProp) (simp add: setProp_def valuesOK_update)

lemma cleanInv_delProp: "cleanInv s \<Longrightarrow> cleanInv (delProp a k s)"
  unfolding cleanInv_def by (simp add: insertInv_delProp) (simp add: delProp_def valuesOK_delete)

lemma cleanInv_newObject: "cleanInv s \<Longrightarrow> cleanInv (snd (newObject s))"
  unfolding cleanInv_def by (simp add: insertInv_newObject) (simp add: newObject_def)

lemma cleanInv_addTerminal: "cleanInv s \<Longrightarrow> cleanInv (addTerminal node w s)"
proof (induction node w s rule: addTerminal_induct)
  case (step node w s)
  show ?case
  proof (cases "length w \<le> 1")
    case True
    with step(2) show ?thesis by (simp add: addTerminal_short cleanInv_setProp)
  next
    case False
    have "cleanInv (setProp node [hd w] (Obj (nextAddr s)) (snd (newObject s)))"
      using step(2) by (intro cleanInv_setProp cleanInv_newObject) auto
    from step(1) [OF False this] False show ?thesis by (simp add: addTerminal_long)
  qed
qed

text \<open>The name that \<open>_insert\<close> picks for a word without underscore is its first code unit.\<close>

lemma commonPrefix_hd: "commonPrefix w p \<noteq> [] \<Longrightarrow> w \<noteq> [] \<and> p \<noteq> [] \<and> hd p = hd w"
  by (induction w p rule: commonPrefix.induct) (auto split: if_splits)

lemma commonPrefix_single: "w \<noteq> [] \<Longrightarrow> commonPrefix w [hd w] = [hd w]"
  by (cases w) auto

lemma picked_name:
  assumes k: "keysOK ob" and f: "find (\<lambda>p. commonPrefix w p \<noteq> []) (jsKeys ob) = Some p"
    and c: "hd w \<noteq> CHR ''_''"
  shows "p = [hd w]" "w \<noteq> []" "p \<in> fst ` set ob"
proof -
  from find_key [OF f] have pk: "p \<in> fst ` set ob" and ne: "commonPrefix w p \<noteq> []" by auto
  from commonPrefix_hd [OF ne] have h: "w \<noteq> []" "p \<noteq> []" "hd p = hd w" by auto
  from keysOK_keyD [OF k pk] h c have "length p = 1" by (cases p) auto
  with h show "p = [hd w]" by (cases p) auto
  show "w \<noteq> []" "p \<in> fst ` set ob" by (rule h(1), rule pk)
qed

lemma find_name:
  assumes k: "keysOK ob" and w: "w \<noteq> []" and c: "hd w \<noteq> CHR ''_''" and key: "[hd w] \<in> fst ` set ob"
  shows "find (\<lambda>p. commonPrefix w p \<noteq> []) (jsKeys ob) = Some [hd w]"
proof -
  have "commonPrefix w [hd w] \<noteq> []" using w by (simp add: commonPrefix_single)
  moreover from key have "[hd w] \<in> set (jsKeys ob)" by (simp add: set_jsKeys)
  ultimately have "\<exists>x\<in>set (jsKeys ob). commonPrefix w x \<noteq> []" by (rule_tac x = "[hd w]" in bexI)
  then have "find (\<lambda>p. commonPrefix w p \<noteq> []) (jsKeys ob) \<noteq> None"
    by (auto simp: find_None_iff)
  then obtain p where p: "find (\<lambda>p. commonPrefix w p \<noteq> []) (jsKeys ob) = Some p" by auto
  from picked_name(1) [OF k p c] p show ?thesis by simp
qed

lemma getProp_map_of: "getProp ob k = v \<Longrightarrow> v \<noteq> Undef \<Longrightarrow> map_of ob k = Some v"
  by (auto simp: getProp_def split: option.splits)

lemma key_getProp: "distinct (map fst ob) \<Longrightarrow> k \<in> fst ` set ob \<Longrightarrow> map_of ob k = Some (getProp ob k)"
  by (auto simp: getProp_def split: option.splits dest: weak_map_of_SomeI map_of_eq_None_iff [THEN iffD1])

lemma cleanInv_insert_at:
  "cleanInv s \<Longrightarrow> clean w \<Longrightarrow> cleanInv (insert_at w node s)"
proof (induction w node s rule: insert_at_induct)
  case (none word node s)
  then show ?case by (simp add: insert_at_none cleanInv_addTerminal)
next
  case (descend word node s p child)
  from find_key [OF descend(1)] have "p \<noteq> []" by auto
  with descend show ?case by (simp add: insert_at_descend clean_drop)
next
  case (duplicate word node s p)
  then show ?case by (simp add: insert_at_duplicate)
next
  case (split word node s p)
  from split(4) have k: "keysOK (heap s node)" and vo: "valuesOK (heap s node)"
    by (simp_all add: cleanInv_def insertInv_def)
  from find_key [OF split(1)] have ne: "commonPrefix word p \<noteq> []" by auto
  from commonPrefix_hd [OF ne] have wne: "word \<noteq> []" by simp
  with split(5) have c: "hd word \<noteq> CHR ''_''" by (rule clean_hd)
  from picked_name [OF k split(1) c] have p: "p = [hd word]" and pk: "p \<in> fst ` set (heap s node)"
    by auto
  have cp: "commonPrefix word p = p" using wne p by (simp add: commonPrefix_single)
  have m: "map_of (heap s node) p = Some (getProp (heap s node) p)"
    using k pk by (intro key_getProp) (simp add: keysOK_def)
  from split(2) cp have "\<not> isObject (getProp (heap s node) p)" by simp
  with vo m p have v: "getProp (heap s node) p = Num 1" by (auto simp: valuesOK_def)
  show ?case
    unfolding insert_at_split [OF split(1-3)] Let_def cleanInv_fields cp v
    using split(4) p
    by (intro cleanInv_setProp cleanInv_delProp cleanInv_addTerminal cleanInv_newObject) auto
qed


lemma combineLoop_cleanInv:
  assumes chain: "\<And>node s r s'. combineSuffixNode n node s = Some (r, s') \<Longrightarrow> cleanInv s \<Longrightarrow> cleanInv s'"
  shows "combineLoop n node props sig s = Some (sig', s') \<Longrightarrow> cleanInv s \<Longrightarrow>
         (\<forall>p\<in>set props. length p = 1) \<Longrightarrow> cleanInv s'"
proof (induction props arbitrary: sig s)
  case Nil
  then show ?case by simp
next
  case (Cons p props)
  show ?case
  proof (cases "getProp (heap s node) p")
    case (Obj child)
    with Cons(2) obtain c s1 where
      c: "combineSuffixNode n child s = Some (c, s1)" and
      l: "combineLoop n node props (sig @ [p, joinElem (getProp (heap s1 c) ''_c'')])
            (setProp node p (Obj c) s1) = Some (sig', s')"
      by (auto split: option.splits)
    from chain [OF c Cons(3)] have "cleanInv s1" .
    moreover from Cons(4) have "length p = 1" by simp
    ultimately have "cleanInv (setProp node p (Obj c) s1)"
      by (intro cleanInv_setProp) auto
    from Cons(1) [OF l this] Cons(4) show ?thesis by simp
  next
    case (Num x)
    with Cons show ?thesis by simp
  next
    case (Str x)
    with Cons show ?thesis by simp
  next
    case Undef
    with Cons show ?thesis by simp
  qed
qed

lemma combineSuffixNode_cleanInv:
  "combineSuffixNode n node s = Some (r, s') \<Longrightarrow> cleanInv s \<Longrightarrow> cleanInv s'"
proof (induction n arbitrary: node s r s')
  case 0
  then show ?case by simp
next
  case (Suc n)
  show ?case
  proof (cases "truthy (getProp (heap s node) ''_c'')")
    case True
    with Suc(2,3) show ?thesis by simp
  next
    case False
    with Suc(2) obtain sig s1 where
      l: "combineLoop n node (nodeProps (heap s node) False)
            (if isTerminal (heap s node) then [''!''] else []) s = Some (sig, s1)"
      by (auto split: option.splits)
    have sh: "\<forall>p\<in>set (nodeProps (heap s node) False). length p = 1"
      using Suc(3) nodeProps_short by (fastforce simp: cleanInv_def insertInv_def)
    have i1: "cleanInv s1"
      by (rule combineLoop_cleanInv [OF Suc(1) l Suc(3) sh])
    show ?thesis
    proof (cases "map_of (suffixes s1) (join sig)")
      case None
      with Suc(2) False l have
        "s' = setProp node ''_c'' (Num (cNext s1))
                (s1\<lparr> suffixes := AList.update (join sig) node (suffixes s1), cNext := Suc (cNext s1) \<rparr>)"
        by auto
      with i1 show ?thesis by (simp add: cleanInv_setProp)
    next
      case (Some shared)
      with Suc(2) False l have "s' = s1" by auto
      with i1 show ?thesis by simp
    qed
  qed
qed

lemma insert_word_cleanInv:
  assumes "insert_word fuel w s = Some s'" and "cleanInv s" and "clean w"
  shows "cleanInv s'"
proof -
  let ?s2 = "(insert_at w (root s) s)\<lparr> lastWord := w \<rparr>"
  have i2: "cleanInv ?s2" using assms(2,3) by (simp add: cleanInv_insert_at)
  show ?thesis
  proof (cases "commonPrefix w (lastWord (insert_at w (root s) s)) = lastWord (insert_at w (root s) s)")
    case True
    with assms(1) have "s' = ?s2" by (simp add: insert_word_def Let_def)
    with i2 show ?thesis by simp
  next
    case False
    show ?thesis
    proof (cases "uniqueNode (heap ?s2) (lastWord (insert_at w (root s) s)) w (root ?s2)")
      case (Obj freeze)
      with False assms(1) obtain r where "combineSuffixNode fuel freeze ?s2 = Some (r, s')"
        by (auto simp: insert_word_def Let_def)
      from combineSuffixNode_cleanInv [OF this i2] show ?thesis .
    next
      case (Num x)
      with False assms(1) have "s' = ?s2" by (simp add: insert_word_def Let_def)
      with i2 show ?thesis by simp
    next
      case (Str x)
      with False assms(1) have "s' = ?s2" by (simp add: insert_word_def Let_def)
      with i2 show ?thesis by simp
    next
      case Undef
      with False assms(1) have "s' = ?s2" by (simp add: insert_word_def Let_def)
      with i2 show ?thesis by simp
    qed
  qed
qed

lemma insertWords_cleanInv:
  "insertWords fuel ws s = Some s' \<Longrightarrow> cleanInv s \<Longrightarrow> \<forall>w\<in>set ws. clean w \<Longrightarrow> cleanInv s'"
proof (induction ws arbitrary: s)
  case Nil
  then show ?case by simp
next
  case (Cons w ws)
  from Cons(2) obtain s1 where 1: "insert_word fuel w s = Some s1" and 2: "insertWords fuel ws s1 = Some s'"
    by (auto split: option.splits)
  from Cons(4) have "clean w" "\<forall>w\<in>set ws. clean w" by simp_all
  from Cons(1) [OF 2 insert_word_cleanInv [OF 1 Cons(3) this(1)] this(2)] show ?case .
qed

lemma cleanInv_newTrie: "cleanInv newTrie"
  by (simp add: cleanInv_def insertInv_newTrie)

text \<open>\<open>_insert\<close> drops a word that is in the dictionary.\<close>

lemma insert_at_member:
  "cleanInv s \<Longrightarrow> clean w \<Longrightarrow> isFragment (heap s) w node \<Longrightarrow>
   \<exists>k. insert_at w node s = s\<lparr> wordCount := k \<rparr>"
proof (induction w arbitrary: node rule: length_induct)
  case (1 w)
  from 1(2) have k: "keysOK (heap s node)" and vo: "valuesOK (heap s node)"
    and d: "distinct (map fst (heap s node))"
    by (simp_all add: cleanInv_def insertInv_def keysOK_def)
  show ?case
  proof (cases "w = []")
    case True
    with 1(4) have t: "truthy (getProp (heap s node) [])" by (simp add: isFragment_Nil isTerminal_def)
    then have "getProp (heap s node) [] \<noteq> Undef" by auto
    from getProp_map_of [OF refl this] have m: "map_of (heap s node) [] = Some (getProp (heap s node) [])" .
    with vo have "getProp (heap s node) [] = Num 1" by (auto simp: valuesOK_def)
    with m have m1: "map_of (heap s node) [] = Some (Num 1)" by simp
    have f: "find (\<lambda>p. commonPrefix [] p \<noteq> []) (jsKeys (heap s node)) = None"
      by (simp add: find_None_iff)
    have "AList.update [] (Num 1) (heap s node) = heap s node"
      by (rule update_triv [OF m1])
    then have "setProp node [] (Num 1) s = s"
      unfolding setProp_def by (simp only: fun_upd_triv) simp
    with True f show ?thesis
      by (auto simp: insert_at_none addTerminal_short intro: exI [of _ "Suc (wordCount s)"])
  next
    case False
    with 1(3) have c: "hd w \<noteq> CHR ''_''" by (rule clean_hd)
    from isFragment_step [of "heap s" node w, OF keysOK_prefixFree [OF k] False] 1(4)
    consider (num) "getProp (heap s node) w = Num 1"
      | (edge) p child where "p \<in> set (nodeProps (heap s node) False)" "matches p w"
          "getProp (heap s node) p = Obj child" "isFragment (heap s) (drop (length p) w) child"
      by auto
    then show ?thesis
    proof cases
      case num
      from getProp_map_of [OF num] have "w \<in> fst ` set (heap s node)"
        by (auto dest!: map_of_SomeD intro: rev_image_eqI)
      with keysOK_keyD [OF k this] False c have w1: "w = [hd w]" and key: "[hd w] \<in> fst ` set (heap s node)"
        by (cases w; auto)+
      from find_name [OF k False c key] w1
      have f: "find (\<lambda>p. commonPrefix w p \<noteq> []) (jsKeys (heap s node)) = Some w" by simp
      have "insert_at w node s = s"
        by (rule insert_at_duplicate [OF f]) (simp_all add: num)
      then show ?thesis by (auto intro: exI [of _ "wordCount s"])
    next
      case edge
      from nodeProps_short [OF k edge(1)] have lp: "length p = 1" .
      then have pne: "p \<noteq> []" by auto
      from matches_hd [OF edge(2) pne] lp have p: "p = [hd w]" by (cases p) auto
      from edge(1) p have key: "[hd w] \<in> fst ` set (heap s node)" by (simp add: set_nodeProps)
      from find_name [OF k False c key] p
      have f: "find (\<lambda>p. commonPrefix w p \<noteq> []) (jsKeys (heap s node)) = Some p" by simp
      have cp: "p = commonPrefix w p" using False p by (simp add: commonPrefix_single)
      have e: "insert_at w node s = insert_at (drop (length p) w) child s"
        by (rule insert_at_descend [OF f cp edge(3)])
      have "length (drop (length p) w) < length w" using False lp by simp
      with 1(1) 1(2) clean_drop [OF 1(3)] edge(4)
      have "\<exists>k. insert_at (drop (length p) w) child s = s\<lparr> wordCount := k \<rparr>" by blast
      with e show ?thesis by simp
    qed
  qed
qed


lemma combineLoop_lastWord:
  assumes chain: "\<And>node s r s'. combineSuffixNode n node s = Some (r, s') \<Longrightarrow> lastWord s' = lastWord s"
  shows "combineLoop n node props sig s = Some (sig', s') \<Longrightarrow> lastWord s' = lastWord s"
proof (induction props arbitrary: sig s)
  case Nil
  then show ?case by simp
next
  case (Cons p props)
  show ?case
  proof (cases "getProp (heap s node) p")
    case (Obj child)
    with Cons(2) obtain c s1 where
      c: "combineSuffixNode n child s = Some (c, s1)" and
      l: "combineLoop n node props (sig @ [p, joinElem (getProp (heap s1 c) ''_c'')])
            (setProp node p (Obj c) s1) = Some (sig', s')"
      by (auto split: option.splits)
    from chain [OF c] Cons(1) [OF l] show ?thesis by (simp add: setProp_def)
  next
    case (Num x)
    with Cons show ?thesis by simp
  next
    case (Str x)
    with Cons show ?thesis by simp
  next
    case Undef
    with Cons show ?thesis by simp
  qed
qed

lemma combineSuffixNode_lastWord:
  "combineSuffixNode n node s = Some (r, s') \<Longrightarrow> lastWord s' = lastWord s"
proof (induction n arbitrary: node s r s')
  case 0
  then show ?case by simp
next
  case (Suc n)
  show ?case
  proof (cases "truthy (getProp (heap s node) ''_c'')")
    case True
    with Suc(2) show ?thesis by simp
  next
    case False
    with Suc(2) obtain sig s1 where
      l: "combineLoop n node (nodeProps (heap s node) False)
            (if isTerminal (heap s node) then [''!''] else []) s = Some (sig, s1)"
      by (auto split: option.splits)
    have f1: "lastWord s1 = lastWord s"
      by (rule combineLoop_lastWord [OF Suc(1) l])
    show ?thesis
    proof (cases "map_of (suffixes s1) (join sig)")
      case None
      with Suc(2) False l have
        "s' = setProp node ''_c'' (Num (cNext s1))
                (s1\<lparr> suffixes := AList.update (join sig) node (suffixes s1), cNext := Suc (cNext s1) \<rparr>)"
        by auto
      with f1 show ?thesis by (simp add: setProp_def)
    next
      case (Some shared)
      with Suc(2) False l have "s' = s1" by auto
      with f1 show ?thesis by simp
    qed
  qed
qed

lemma insert_word_lastWord:
  assumes "insert_word fuel w s = Some s'"
  shows "lastWord s' = w"
proof -
  let ?s2 = "(insert_at w (root s) s)\<lparr> lastWord := w \<rparr>"
  show ?thesis
  proof (cases "commonPrefix w (lastWord (insert_at w (root s) s)) = lastWord (insert_at w (root s) s)")
    case True
    with assms have "s' = ?s2" by (simp add: insert_word_def Let_def)
    then show ?thesis by simp
  next
    case False
    show ?thesis
    proof (cases "uniqueNode (heap ?s2) (lastWord (insert_at w (root s) s)) w (root ?s2)")
      case (Obj freeze)
      with False assms obtain r where "combineSuffixNode fuel freeze ?s2 = Some (r, s')"
        by (auto simp: insert_word_def Let_def)
      from combineSuffixNode_lastWord [OF this] show ?thesis by simp
    next
      case (Num x)
      with False assms have "s' = ?s2" by (simp add: insert_word_def Let_def)
      then show ?thesis by simp
    next
      case (Str x)
      with False assms have "s' = ?s2" by (simp add: insert_word_def Let_def)
      then show ?thesis by simp
    next
      case Undef
      with False assms have "s' = ?s2" by (simp add: insert_word_def Let_def)
      then show ?thesis by simp
    qed
  qed
qed

lemma insertWords_append:
  "insertWords fuel (xs @ ys) s =
     (case insertWords fuel xs s of None \<Rightarrow> None | Some s1 \<Rightarrow> insertWords fuel ys s1)"
  by (induction xs arbitrary: s) (auto split: option.splits)

lemma commonPrefix_self: "commonPrefix w w = w"
  by (induction w) auto

lemma insert_word_member:
  assumes "cleanInv s" and "clean w" and "lastWord s = w" and "isWord s w"
  shows "\<exists>k. insert_word fuel w (s\<lparr> wordCount := j \<rparr>) = Some (s\<lparr> wordCount := k \<rparr>)"
proof -
  let ?S = "s\<lparr> wordCount := j \<rparr>"
  have "cleanInv ?S" "isFragment (heap ?S) w (root s)"
    using assms(1,4) by (simp_all add: isWord_def)
  from insert_at_member [OF this(1) assms(2) this(2)] obtain k where
    k: "insert_at w (root s) ?S = s\<lparr> wordCount := k \<rparr>" by auto
  have "(s\<lparr> wordCount := k, lastWord := w \<rparr>) = s\<lparr> wordCount := k \<rparr>"
    using assms(3) by (cases s) auto
  then have "insert_word fuel w ?S = Some (s\<lparr> wordCount := k \<rparr>)"
    using assms(3) by (simp add: insert_word_def Let_def k commonPrefix_self)
  then show ?thesis by blast
qed

lemma insertWords_member:
  assumes "cleanInv s" and "clean w" and "lastWord s = w" and "isWord s w"
  shows "\<exists>k. insertWords fuel (replicate n w) (s\<lparr> wordCount := j \<rparr>) = Some (s\<lparr> wordCount := k \<rparr>)"
proof (induction n arbitrary: j)
  case 0
  show ?case by auto
next
  case (Suc n)
  from insert_word_member [OF assms, of fuel j] obtain k where
    "insert_word fuel w (s\<lparr> wordCount := j \<rparr>) = Some (s\<lparr> wordCount := k \<rparr>)" by blast
  with Suc [of k] show ?case by auto
qed

text \<open>
  Claim C8, amended: after any sequence of inserts of words without underscore that ends
  with the word \<open>w\<close>, if \<open>isWord\<close> accepts \<open>w\<close>, then inserting \<open>w\<close> again, any number of
  times, returns and leaves the trie as it was (only the word count may differ), so
  \<open>isWord\<close> answers every query as before.
\<close>

theorem duplicate_of_last_word_is_dropped:
  assumes "insertWords fuel (ws @ [w]) newTrie = Some s"
    and "\<forall>x\<in>set (ws @ [w]). clean x" and "isWord s w"
  shows "\<exists>k. insertWords fuel' (replicate n w) s = Some (s\<lparr> wordCount := k \<rparr>) \<and>
             (\<forall>q. isWord (s\<lparr> wordCount := k \<rparr>) q = isWord s q)"
proof -
  have inv: "cleanInv s" using assms(1) cleanInv_newTrie assms(2) by (rule insertWords_cleanInv)
  from assms(1) obtain s0 where "insert_word fuel w s0 = Some s"
    by (auto simp: insertWords_append split: option.splits)
  then have l: "lastWord s = w" by (rule insert_word_lastWord)
  from assms(2) have c: "clean w" by simp
  have e: "s\<lparr> wordCount := wordCount s \<rparr> = s" by simp
  from insertWords_member [OF inv c l assms(3), of fuel' n "wordCount s"] obtain k where
    "insertWords fuel' (replicate n w) s = Some (s\<lparr> wordCount := k \<rparr>)"
    unfolding e by blast
  moreover have "\<forall>q. isWord (s\<lparr> wordCount := k \<rparr>) q = isWord s q" by (simp add: isWord_def)
  ultimately show ?thesis by blast
qed

theorem duplicate_of_last_word_is_dropped_witness:
  "insertWords 0 ([] @ [''foo'']) newTrie = Some (firstInsert ''foo'') \<and>
   clean ''foo'' \<and> isWord (firstInsert ''foo'') ''foo'' \<and>
   (\<exists>k. insertWords 0 (replicate 2 ''foo'') (firstInsert ''foo'') =
          Some ((firstInsert ''foo'')\<lparr> wordCount := k \<rparr>) \<and>
        (\<forall>q. isWord ((firstInsert ''foo'')\<lparr> wordCount := k \<rparr>) q = isWord (firstInsert ''foo'') q))"
proof -
  have b: "insertWords 0 ([] @ [''foo'']) newTrie = Some (firstInsert ''foo'')"
    by (simp add: firstInsert_eq)
  have c: "\<forall>x\<in>set ([] @ [''foo'']). clean x" by (simp add: clean_def)
  have m: "isWord (firstInsert ''foo'') ''foo''"
    by (simp add: firstInsert_def ev_build ev_query)
  have c': "clean ''foo''" by (simp add: clean_def)
  from duplicate_of_last_word_is_dropped [OF b c m, of 0 2] b c' m show ?thesis by blast
qed

section \<open>Names that start with an underscore\<close>

lemma hiddenOK_Nil [simp]: "hiddenOK []"
  by (simp add: hiddenOK_def)

lemma hiddenOK_update:
  "hiddenOK ob \<Longrightarrow> (k = [] \<or> hd k = CHR ''_'' \<longrightarrow> (k = [] \<or> k \<in> bookkeeping) \<and> \<not> isObject v) \<Longrightarrow>
   hiddenOK (AList.update k v ob)"
  unfolding hiddenOK_def by (simp add: AList.update_conv')

lemma hiddenOK_delete: "hiddenOK ob \<Longrightarrow> hiddenOK (AList.delete k ob)"
  unfolding hiddenOK_def by (simp add: AList.delete_conv')

lemma storeOK_fields [simp]:
  "storeOK (s\<lparr> wordCount := n \<rparr>) = storeOK s"
  "storeOK (s\<lparr> lastWord := w \<rparr>) = storeOK s"
  "storeOK (s\<lparr> suffixes := sf \<rparr>) = storeOK s"
  "storeOK (s\<lparr> cNext := c \<rparr>) = storeOK s"
  "storeOK (s\<lparr> vCur := v \<rparr>) = storeOK s"
  by (simp_all add: storeOK_def)

lemma storeOK_setProp:
  "storeOK s \<Longrightarrow> (k = [] \<or> hd k = CHR ''_'' \<longrightarrow> (k = [] \<or> k \<in> bookkeeping) \<and> \<not> isObject v) \<Longrightarrow>
   storeOK (setProp a k v s)"
  unfolding storeOK_def by (simp add: setProp_def hiddenOK_update)

lemma storeOK_delProp: "storeOK s \<Longrightarrow> storeOK (delProp a k s)"
  unfolding storeOK_def by (simp add: delProp_def hiddenOK_delete)

lemma storeOK_newObject: "storeOK s \<Longrightarrow> storeOK (snd (newObject s))"
  unfolding storeOK_def by (simp add: newObject_def)

lemma storeOK_newTrie: "storeOK newTrie"
  by (simp add: storeOK_def)

lemma clean_tl: "clean w \<Longrightarrow> clean (tl w)"
  by (cases w) (auto simp: clean_def)

lemma storeOK_addTerminal: "storeOK s \<Longrightarrow> clean w \<Longrightarrow> storeOK (addTerminal node w s)"
proof (induction node w s rule: addTerminal_induct)
  case (step node w s)
  show ?case
  proof (cases "length w \<le> 1")
    case True
    have "w = [] \<or> hd w \<noteq> CHR ''_''" using step(3) clean_hd by blast
    then have "storeOK (setProp node w (Num 1) s)"
      using step(2) by (intro storeOK_setProp) auto
    with True show ?thesis by (simp add: addTerminal_short)
  next
    case False
    then have "w \<noteq> []" by auto
    with step(3) have "hd w \<noteq> CHR ''_''" by (rule clean_hd)
    then have "storeOK (setProp node [hd w] (Obj (nextAddr s)) (snd (newObject s)))"
      using step(2) by (intro storeOK_setProp storeOK_newObject) auto
    from step(1) [OF False this clean_tl [OF step(3)]] False show ?thesis by (simp add: addTerminal_long)
  qed
qed

lemma storeOK_insert_at:
  "insertInv s \<Longrightarrow> storeOK s \<Longrightarrow> clean w \<Longrightarrow> storeOK (insert_at w node s)"
proof (induction w node s rule: insert_at_induct)
  case (none word node s)
  then show ?case by (simp add: insert_at_none storeOK_addTerminal)
next
  case (descend word node s p child)
  then show ?case by (simp add: insert_at_descend clean_drop)
next
  case (duplicate word node s p)
  then show ?case by (simp add: insert_at_duplicate)
next
  case (split word node s p)
  from split(4) have k: "keysOK (heap s node)" by (simp add: insertInv_def)
  from find_key [OF split(1)] have ne: "commonPrefix word p \<noteq> []" by auto
  from commonPrefix_hd [OF ne] have wne: "word \<noteq> []" by simp
  with split(6) have c: "hd word \<noteq> CHR ''_''" by (rule clean_hd)
  from picked_name [OF k split(1) c] have p: "p = [hd word]" by auto
  have cp: "commonPrefix word p = p" using wne p by (simp add: commonPrefix_single)
  from split(2) cp have nv: "\<not> isObject (getProp (heap s node) p)" by simp
  show ?case
    unfolding insert_at_split [OF split(1-3)] Let_def storeOK_fields cp
    using split(5) p c nv clean_drop [OF split(6)]
    by (intro storeOK_setProp storeOK_delProp storeOK_addTerminal storeOK_newObject) auto
qed

lemma combineLoop_storeOK:
  assumes chain: "\<And>node s r s'. combineSuffixNode n node s = Some (r, s') \<Longrightarrow> storeOK s \<Longrightarrow> storeOK s'"
  shows "combineLoop n node props sig s = Some (sig', s') \<Longrightarrow> storeOK s \<Longrightarrow>
         (\<forall>p\<in>set props. p \<noteq> [] \<and> hd p \<noteq> CHR ''_'') \<Longrightarrow> storeOK s'"
proof (induction props arbitrary: sig s)
  case Nil
  then show ?case by simp
next
  case (Cons p props)
  show ?case
  proof (cases "getProp (heap s node) p")
    case (Obj child)
    with Cons(2) obtain c s1 where
      c: "combineSuffixNode n child s = Some (c, s1)" and
      l: "combineLoop n node props (sig @ [p, joinElem (getProp (heap s1 c) ''_c'')])
            (setProp node p (Obj c) s1) = Some (sig', s')"
      by (auto split: option.splits)
    from chain [OF c Cons(3)] have "storeOK s1" .
    then have "storeOK (setProp node p (Obj c) s1)"
      using Cons(4) by (intro storeOK_setProp) auto
    from Cons(1) [OF l this] Cons(4) show ?thesis by simp
  next
    case (Num x)
    with Cons show ?thesis by simp
  next
    case (Str x)
    with Cons show ?thesis by simp
  next
    case Undef
    with Cons show ?thesis by simp
  qed
qed

lemma combineSuffixNode_storeOK:
  "combineSuffixNode n node s = Some (r, s') \<Longrightarrow> storeOK s \<Longrightarrow> storeOK s'"
proof (induction n arbitrary: node s r s')
  case 0
  then show ?case by simp
next
  case (Suc n)
  show ?case
  proof (cases "truthy (getProp (heap s node) ''_c'')")
    case True
    with Suc(2,3) show ?thesis by simp
  next
    case False
    with Suc(2) obtain sig s1 where
      l: "combineLoop n node (nodeProps (heap s node) False)
            (if isTerminal (heap s node) then [''!''] else []) s = Some (sig, s1)"
      by (auto split: option.splits)
    have sh: "\<forall>p\<in>set (nodeProps (heap s node) False). p \<noteq> [] \<and> hd p \<noteq> CHR ''_''"
      using label_nonempty by blast
    have i1: "storeOK s1"
      by (rule combineLoop_storeOK [OF Suc(1) l Suc(3) sh])
    show ?thesis
    proof (cases "map_of (suffixes s1) (join sig)")
      case None
      with Suc(2) False l have
        "s' = setProp node ''_c'' (Num (cNext s1))
                (s1\<lparr> suffixes := AList.update (join sig) node (suffixes s1), cNext := Suc (cNext s1) \<rparr>)"
        by auto
      with i1 show ?thesis by (simp add: storeOK_setProp bookkeeping_def)
    next
      case (Some shared)
      with Suc(2) False l have "s' = s1" by auto
      with i1 show ?thesis by simp
    qed
  qed
qed

lemma insert_word_storeOK:
  assumes "insert_word fuel w s = Some s'" and "insertInv s" and "storeOK s" and "clean w"
  shows "storeOK s'"
proof -
  let ?s2 = "(insert_at w (root s) s)\<lparr> lastWord := w \<rparr>"
  have i2: "storeOK ?s2" using assms(2,3,4) by (simp add: storeOK_insert_at)
  show ?thesis
  proof (cases "commonPrefix w (lastWord (insert_at w (root s) s)) = lastWord (insert_at w (root s) s)")
    case True
    with assms(1) have "s' = ?s2" by (simp add: insert_word_def Let_def)
    with i2 show ?thesis by simp
  next
    case False
    show ?thesis
    proof (cases "uniqueNode (heap ?s2) (lastWord (insert_at w (root s) s)) w (root ?s2)")
      case (Obj freeze)
      with False assms(1) obtain r where "combineSuffixNode fuel freeze ?s2 = Some (r, s')"
        by (auto simp: insert_word_def Let_def)
      from combineSuffixNode_storeOK [OF this i2] show ?thesis .
    next
      case (Num x)
      with False assms(1) have "s' = ?s2" by (simp add: insert_word_def Let_def)
      with i2 show ?thesis by simp
    next
      case (Str x)
      with False assms(1) have "s' = ?s2" by (simp add: insert_word_def Let_def)
      with i2 show ?thesis by simp
    next
      case Undef
      with False assms(1) have "s' = ?s2" by (simp add: insert_word_def Let_def)
      with i2 show ?thesis by simp
    qed
  qed
qed

lemma insertWords_storeOK:
  "insertWords fuel ws s = Some s' \<Longrightarrow> insertInv s \<Longrightarrow> storeOK s \<Longrightarrow> \<forall>w\<in>set ws. clean w \<Longrightarrow>
   storeOK s'"
proof (induction ws arbitrary: s)
  case Nil
  then show ?case by simp
next
  case (Cons w ws)
  from Cons(2) obtain s1 where 1: "insert_word fuel w s = Some s1" and 2: "insertWords fuel ws s1 = Some s'"
    by (auto split: option.splits)
  from Cons(5) have c: "clean w" "\<forall>w\<in>set ws. clean w" by simp_all
  from Cons(1) [OF 2 insert_word_insertInv [OF 1 Cons(3)] insert_word_storeOK [OF 1 Cons(3) Cons(4) c(1)] c(2)]
  show ?case .
qed

lemma incDegree_storeOK: "storeOK s \<Longrightarrow> storeOK (incDegree a s)"
  unfolding incDegree_def
  by (rule storeOK_setProp) (auto simp: bookkeeping_def split: val.splits)

lemma visited_storeOK: "storeOK s \<Longrightarrow> storeOK (snd (visited a s))"
  unfolding visited_def by (auto simp: bookkeeping_def intro: storeOK_setProp)

lemma countLoop_storeOK:
  assumes chain: "\<And>a s s'. countDegree n a s = Some s' \<Longrightarrow> storeOK s \<Longrightarrow> storeOK s'"
  shows "countLoop n node props s = Some s' \<Longrightarrow> storeOK s \<Longrightarrow> storeOK s'"
proof (induction props arbitrary: s)
  case Nil
  then show ?case by simp
next
  case (Cons p props)
  from Cons(2) obtain child s1 where
    "countDegree n child s = Some s1" "countLoop n node props s1 = Some s'"
    by (auto split: val.splits option.splits)
  from Cons(1) [OF this(2) chain [OF this(1) Cons(3)]] show ?case .
qed

lemma countDegree_storeOK: "countDegree n a s = Some s' \<Longrightarrow> storeOK s \<Longrightarrow> storeOK s'"
proof (induction n arbitrary: a s s')
  case 0
  then show ?case by simp
next
  case (Suc n)
  let ?s0 = "incDegree a s"
  have h1: "storeOK (snd (visited a ?s0))"
    using Suc(3) by (intro visited_storeOK incDegree_storeOK)
  show ?case
  proof (cases "fst (visited a ?s0)")
    case True
    with Suc(2) have "s' = snd (visited a ?s0)" by (auto split: prod.splits)
    with h1 show ?thesis by simp
  next
    case False
    with Suc(2) have
      "countLoop n a (nodeProps (heap (snd (visited a ?s0)) a) True) (snd (visited a ?s0)) = Some s'"
      by (auto split: prod.splits)
    from countLoop_storeOK [OF Suc(1) this h1] show ?thesis .
  qed
qed

lemma beforeCollapse_storeOK:
  assumes "beforeCollapse fuel s = Some s3" and "storeOK s"
  shows "storeOK s3"
proof -
  from assms(1) obtain r s1 s2 where
    c: "combineSuffixNode fuel (root s) s = Some (r, s1)" and
    d: "countDegree fuel (root s) (prepDFS s1) = Some s2" and e: "s3 = prepDFS s2"
    by (rule beforeCollapse_steps)
  from combineSuffixNode_storeOK [OF c assms(2)] have "storeOK (prepDFS s1)" by (simp add: prepDFS_def)
  from countDegree_storeOK [OF d this] show ?thesis by (simp add: e prepDFS_def)
qed


section \<open>All edges of a node\<close>

lemma targets_Cons:
  "targets ob (p # ps) = (case getProp ob p of Obj c \<Rightarrow> [c] | _ \<Rightarrow> []) @ targets ob ps"
  by (simp add: targets_def)

lemma targets_set: "set (targets ob ps) = {c. \<exists>p\<in>set ps. getProp ob p = Obj c}"
  by (induction ps) (auto simp: targets_Cons targets_def split: val.splits)

lemma targets_length: "length (targets ob ps) = length (filter (\<lambda>p. isObject (getProp ob p)) ps)"
  by (induction ps) (auto simp: targets_Cons targets_def split: val.splits)

lemma edge_names:
  assumes "hiddenOK ob"
  shows "{p \<in> set (jsKeys ob). isObject (getProp ob p)} = set (nodeProps ob True)"
proof -
  have "k \<noteq> [] \<and> hd k \<noteq> CHR ''_''" if "isObject (getProp ob k)" for k
  proof -
    from that have "getProp ob k \<noteq> Undef" by auto
    from getProp_map_of [OF refl this] assms that show ?thesis
      unfolding hiddenOK_def by blast
  qed
  then show ?thesis by (auto simp: set_jsKeys set_nodeProps)
qed

lemma allChildren_set:
  assumes "hiddenOK ob"
  shows "set (allChildren ob) = set (children ob)"
proof -
  note e = edge_names [OF assms]
  have "(\<exists>p\<in>set (jsKeys ob). getProp ob p = Obj c) = (\<exists>p\<in>set (nodeProps ob True). getProp ob p = Obj c)" for c
  proof
    assume "\<exists>p\<in>set (jsKeys ob). getProp ob p = Obj c"
    then obtain p where p: "p \<in> set (jsKeys ob)" "getProp ob p = Obj c" by blast
    then have "p \<in> {p \<in> set (jsKeys ob). isObject (getProp ob p)}" by simp
    with p(2) show "\<exists>p\<in>set (nodeProps ob True). getProp ob p = Obj c" unfolding e by blast
  next
    assume "\<exists>p\<in>set (nodeProps ob True). getProp ob p = Obj c"
    then obtain p where p: "p \<in> set (nodeProps ob True)" "getProp ob p = Obj c" by blast
    from p(1) have "p \<in> set (jsKeys ob)" unfolding e [symmetric] by simp
    with p(2) show "\<exists>p\<in>set (jsKeys ob). getProp ob p = Obj c" by blast
  qed
  then show ?thesis by (simp add: allChildren_def children_targets targets_set)
qed

lemma allChildren_length:
  assumes "hiddenOK ob" and "distinct (map fst ob)"
  shows "length (allChildren ob) = length (children ob)"
proof -
  let ?O = "\<lambda>p. isObject (getProp ob p)"
  have "length (allChildren ob) = card ({x. ?O x} \<inter> set (jsKeys ob))"
    unfolding allChildren_def targets_length
    using distinct_jsKeys [OF assms(2)] by (rule distinct_length_filter)
  also have "{x. ?O x} \<inter> set (jsKeys ob) = set (nodeProps ob True)"
    using edge_names [OF assms(1)] by auto
  also have "\<dots> = {x. ?O x} \<inter> set (nodeProps ob True)"
    by (auto simp: set_nodeProps)
  also have "card \<dots> = length (children ob)"
    unfolding children_targets targets_length
    using distinct_nodeProps [OF assms(2)] by (rule distinct_length_filter [symmetric])
  finally show ?thesis .
qed

lemma all_edges_followed:
  assumes "\<And>a. hiddenOK (h a)" and "\<And>a. distinct (map fst (h a))"
  shows "allDegreeSum h r = degreeSum h r" "allEdgeCount h r = edgeCount h r"
proof -
  have "allEdgeRel h = edgeRel h"
    by (simp add: allEdgeRel_def edgeRel_def allChildren_set [OF assms(1)])
  then have r: "allReachable h r = reachable h r" by (simp add: allReachable_def reachable_def)
  show "allDegreeSum h r = degreeSum h r" by (simp add: allDegreeSum_def degreeSum_def r)
  show "allEdgeCount h r = edgeCount h r"
    by (simp add: allEdgeCount_def edgeCount_def r allChildren_length [OF assms])
qed

text \<open>
  Claim C3, amended: when no inserted word contains an underscore, then after
  \<open>countDegree\<close> has run from the root over the canonicalized store (lines 136-139), the
  in-degree fields of the nodes reachable from the root add up to the number of edges
  (properties that hold a node) of the reachable nodes plus one, the one being the call on
  the root itself.
\<close>

theorem in_degrees_sum_to_edges_plus_one:
  assumes "insertWords fuel ws newTrie = Some s" and "\<forall>w\<in>set ws. clean w"
    and "beforeCollapse fuel' s = Some s3"
  shows "allDegreeSum (heap s3) (root s3) = allEdgeCount (heap s3) (root s3) + 1"
proof -
  have i: "insertInv s" using assms(1) insertInv_newTrie by (rule insertWords_insertInv)
  have "storeOK s" using assms(1) insertInv_newTrie storeOK_newTrie assms(2) by (rule insertWords_storeOK)
  with assms(3) have "storeOK s3" by (rule beforeCollapse_storeOK)
  then have h: "hiddenOK (heap s3 a)" for a by (simp add: storeOK_def)
  from i assms(3) have "collapseInv s3" by (rule beforeCollapse_collapseInv)
  then have d: "distinct (map fst (heap s3 a))" for a
    using wellKeyed_distinct [OF collapseInv_wellKeyed] by blast
  from followed_degree_sum [OF assms(1,3)]
  show ?thesis by (simp add: all_edges_followed [of "heap s3", OF h d])
qed

theorem in_degrees_sum_to_edges_plus_one_witness:
  "insertWords 0 [''ab''] newTrie = Some trie_ab \<and> clean ''ab'' \<and>
   beforeCollapse (Suc (Suc 0)) trie_ab = Some trie_ab_counted \<and>
   allDegreeSum (heap trie_ab_counted) (root trie_ab_counted) =
     allEdgeCount (heap trie_ab_counted) (root trie_ab_counted) + 1"
proof -
  have c: "\<forall>w\<in>set [''ab'']. clean w" by (simp add: clean_def)
  have c': "clean ''ab''" by (simp add: clean_def)
  from in_degrees_sum_to_edges_plus_one [OF build_ab c count_ab] build_ab count_ab c'
  show ?thesis by simp
qed

section \<open>The fused children have no entry with an underscore name\<close>

lemma collapseLoopLog_store:
  assumes chain: "\<And>a s s' fused. collapseChainsLog n a s = Some (s', fused) \<Longrightarrow> storeOK s \<Longrightarrow>
                    storeOK s' \<and> (\<forall>ob\<in>set fused. hiddenOK ob)"
  shows "collapseLoopLog n node props pv s = Some (pv', s', fused) \<Longrightarrow> storeOK s \<Longrightarrow>
         (\<forall>p\<in>set props. p \<noteq> [] \<and> hd p \<noteq> CHR ''_'') \<Longrightarrow> \<not> isObject pv \<Longrightarrow>
         storeOK s' \<and> (\<forall>ob\<in>set fused. hiddenOK ob) \<and> \<not> isObject pv'"
proof (induction props arbitrary: pv s fused)
  case Nil
  then show ?case by simp
next
  case (Cons p props)
  note ok = Cons.prems(2)
  from Cons.prems(3) have pv: "p \<noteq> []" "hd p \<noteq> CHR ''_''"
    and rest: "\<forall>p\<in>set props. p \<noteq> [] \<and> hd p \<noteq> CHR ''_''" by auto
  show ?case
  proof (cases "getProp (heap s node) p")
    case (Obj child)
    with Cons.prems(1) obtain s1 fused1 where
      c: "collapseChainsLog n child s = Some (s1, fused1)"
      by (auto split: option.splits)
    from chain [OF c ok] have ok1: "storeOK s1" and f1: "\<forall>ob\<in>set fused1. hiddenOK ob" by auto
    show ?thesis
    proof (cases "isHoistable (heap s1 child)")
      case True
      let ?g = "toStr (getProp (heap s1 child) ''_g'')"
      let ?s3 = "setProp node (p @ ?g) (getProp (heap (delProp node p s1) child) ?g) (delProp node p s1)"
      from Cons.prems(1) Obj c True obtain fused2 where
        l3: "collapseLoopLog n node props (Str (p @ ?g)) ?s3 = Some (pv', s', fused2)" and
        fe: "fused = fused1 @ heap s1 child # fused2"
        by (auto simp: Let_def split: option.splits)
      have ok3: "storeOK ?s3"
        using ok1 pv by (intro storeOK_setProp storeOK_delProp) auto
      have "\<not> isObject (Str (p @ ?g))" by simp
      from Cons.IH [OF l3 ok3 rest this]
      have r: "storeOK s'" "\<forall>ob\<in>set fused2. hiddenOK ob" "\<not> isObject pv'" by auto
      have "hiddenOK (heap s1 child)" using ok1 by (simp add: storeOK_def)
      with r f1 show ?thesis by (auto simp: fe)
    next
      case False
      from Cons.prems(1) Obj c False obtain fused2 where
        l1: "collapseLoopLog n node props (Str p) s1 = Some (pv', s', fused2)" and
        fe: "fused = fused1 @ fused2"
        by (auto simp: Let_def split: option.splits)
      have "\<not> isObject (Str p)" by simp
      from Cons.IH [OF l1 ok1 rest this] f1 show ?thesis by (auto simp: fe)
    qed
  next
    case (Num x)
    with Cons.prems(1) have l: "collapseLoopLog n node props (Str p) s = Some (pv', s', fused)" by simp
    have "\<not> isObject (Str p)" by simp
    from Cons.IH [OF l ok rest this] show ?thesis .
  next
    case (Str x)
    with Cons.prems(1) have l: "collapseLoopLog n node props (Str p) s = Some (pv', s', fused)" by simp
    have "\<not> isObject (Str p)" by simp
    from Cons.IH [OF l ok rest this] show ?thesis .
  next
    case Undef
    with Cons.prems(1) have l: "collapseLoopLog n node props (Str p) s = Some (pv', s', fused)" by simp
    have "\<not> isObject (Str p)" by simp
    from Cons.IH [OF l ok rest this] show ?thesis .
  qed
qed

lemma collapseChainsLog_store:
  "collapseChainsLog n a s = Some (s', fused) \<Longrightarrow> storeOK s \<Longrightarrow>
   storeOK s' \<and> (\<forall>ob\<in>set fused. hiddenOK ob)"
proof (induction n arbitrary: a s s' fused)
  case 0
  then show ?case by simp
next
  case (Suc n)
  let ?s1 = "snd (visited a s)"
  have ok1: "storeOK ?s1" using Suc.prems(2) by (rule visited_storeOK)
  show ?case
  proof (cases "fst (visited a s)")
    case True
    with Suc.prems(1) have "s' = ?s1" "fused = []" by (auto split: prod.splits)
    with ok1 show ?thesis by simp
  next
    case False
    let ?props = "nodeProps (heap ?s1 a) False"
    from Suc.prems(1) False obtain pv s2 where
      l: "collapseLoopLog n a ?props Undef ?s1 = Some (pv, s2, fused)" and
      e: "s' = (if length ?props = 1 \<and> \<not> isTerminal (heap s2 a) then setProp a ''_g'' pv s2 else s2)"
      by (auto simp: Let_def split: prod.splits option.splits)
    have vis: "\<forall>p\<in>set ?props. p \<noteq> [] \<and> hd p \<noteq> CHR ''_''" using label_nonempty by blast
    have "\<not> isObject Undef" by simp
    from collapseLoopLog_store [OF Suc.IH l ok1 vis this]
    have r: "storeOK s2" "\<forall>ob\<in>set fused. hiddenOK ob" "\<not> isObject pv" by auto
    have "storeOK (setProp a ''_g'' pv s2)"
      using r(1,3) by (intro storeOK_setProp) (auto simp: bookkeeping_def)
    with r e show ?thesis by simp
  qed
qed

lemma entryNames_nodeProps:
  assumes "hiddenOK ob"
  shows "entryNames ob = set (nodeProps ob False)"
proof -
  have "k \<notin> bookkeeping \<longleftrightarrow> hd k \<noteq> CHR ''_''" if "k \<in> fst ` set ob" "k \<noteq> []" for k
  proof
    assume nb: "k \<notin> bookkeeping"
    show "hd k \<noteq> CHR ''_''"
    proof
      assume h: "hd k = CHR ''_''"
      from that(1) obtain v where "(k, v) \<in> set ob" by auto
      then obtain v' where "map_of ob k = Some v'"
        by (metis weak_map_of_SomeI)
      with assms h have "k = [] \<or> k \<in> bookkeeping" unfolding hiddenOK_def by blast
      with that(2) nb show False by simp
    qed
  next
    assume "hd k \<noteq> CHR ''_''"
    then show "k \<notin> bookkeeping" by (auto simp: bookkeeping_def)
  qed
  then show ?thesis unfolding entryNames_def set_nodeProps by auto
qed

text \<open>
  Claim C4, amended: when no inserted word contains an underscore, every child that
  \<open>collapseChains\<close> fuses into its parent, in the run at the end of \<open>optimize\<close>, has
  exactly one property besides the bookkeeping fields (an edge or an inline terminal) and no
  terminal flag, and its in-degree is 1 or the name of that property has length 1.
\<close>

theorem fused_children_have_one_entry:
  assumes "insertWords fuel ws newTrie = Some s" and "\<forall>w\<in>set ws. clean w"
    and "beforeCollapse fuel' s = Some s3"
    and "collapseChainsLog fuel' (root s3) s3 = Some (s4, fused)"
  shows "optimize fuel' s = Some s4 \<and>
         (\<forall>child\<in>set fused. \<exists>g. entryNames child = {g} \<and> \<not> isTerminal child \<and>
                                 (getProp child ''_d'' = Num 1 \<or> length g = 1))"
proof -
  from assms(4) have "collapseChains fuel' (root s3) s3 = Some s4"
    by (simp add: collapseChainsLog_project)
  with assms(3) have o: "optimize fuel' s = Some s4" by (auto simp: optimize_steps)
  have i: "insertInv s" using assms(1) insertInv_newTrie by (rule insertWords_insertInv)
  then have "collapseInv s3" using assms(3) by (rule beforeCollapse_collapseInv)
  with assms(4) have f: "\<forall>ob\<in>set fused. fusedOK ob" by (rule collapseChainsLog_fused)
  have "storeOK s" using assms(1) insertInv_newTrie storeOK_newTrie assms(2) by (rule insertWords_storeOK)
  with assms(3) have "storeOK s3" by (rule beforeCollapse_storeOK)
  with assms(4) have h: "\<forall>ob\<in>set fused. hiddenOK ob" using collapseChainsLog_store by blast
  have "\<exists>g. entryNames child = {g} \<and> \<not> isTerminal child \<and>
            (getProp child ''_d'' = Num 1 \<or> length g = 1)" if "child \<in> set fused" for child
  proof -
    from f that obtain g where g: "singletonNode child g" "getProp child ''_d'' = Num 1 \<or> length g = 1"
      unfolding fusedOK_def by blast
    from h that have "entryNames child = set (nodeProps child False)" by (simp add: entryNames_nodeProps)
    with g(1) have "entryNames child = {g}" by (simp add: singletonNode_def)
    with g show ?thesis by (auto simp: singletonNode_def)
  qed
  with o show ?thesis by blast
qed

theorem fused_children_have_one_entry_witness:
  "insertWords 0 [''ab''] newTrie = Some trie_ab \<and> clean ''ab'' \<and>
   beforeCollapse (Suc (Suc 0)) trie_ab = Some trie_ab_counted \<and>
   (\<exists>s4 child. collapseChainsLog (Suc (Suc 0)) (root trie_ab_counted) trie_ab_counted = Some (s4, [child]) \<and>
      optimize (Suc (Suc 0)) trie_ab = Some s4 \<and>
      (\<exists>g. entryNames child = {g} \<and> \<not> isTerminal child \<and>
           (getProp child ''_d'' = Num 1 \<or> length g = 1)))"
proof -
  obtain s4 child where
    l: "collapseChainsLog (Suc (Suc 0)) (root trie_ab_counted) trie_ab_counted = Some (s4, [child])"
    by (simp add: ev_obj visited_def isHoistable_def trie_ab_counted_def)
  have c: "\<forall>w\<in>set [''ab'']. clean w" by (simp add: clean_def)
  have c': "clean ''ab''" by (simp add: clean_def)
  from fused_children_have_one_entry [OF build_ab c count_ab l] build_ab count_ab l c'
  show ?thesis by auto
qed

section \<open>A word is stored whatever its characters\<close>

lemma addTerminal_member:
  "heap s node = [] \<Longrightarrow> node < nextAddr s \<Longrightarrow> clean w \<Longrightarrow>
   isFragment (heap (addTerminal node w s)) w node"
proof (induction node w s rule: addTerminal_induct)
  case (step node w s)
  show ?case
  proof (cases "length w \<le> 1")
    case True
    then have hn: "heap (addTerminal node w s) node = [(w, Num 1)]"
      using step(2) by (simp add: addTerminal_heap_node_short)
    show ?thesis
    proof (cases "w = []")
      case True
      with hn show ?thesis by (simp add: isFragment_Nil isTerminal_def getProp_def)
    next
      case False
      with hn show ?thesis by (simp add: isFragment_unfold getProp_def)
    qed
  next
    case False
    let ?n = "nextAddr s"
    let ?mid = "setProp node [hd w] (Obj ?n) (snd (newObject s))"
    let ?h = "heap (addTerminal node w s)"
    have al: "addTerminal node w s = addTerminal ?n (tl w) ?mid"
      using False by (rule addTerminal_long)
    have hn: "?h node = [([hd w], Obj ?n)]"
      using addTerminal_heap_node_long [of w node s] False step(2,3) by simp
    from False have wne: "w \<noteq> []" by auto
    then have w: "w = hd w # tl w" by simp
    from step(4) wne have c: "hd w \<noteq> CHR ''_''" by (rule clean_hd)
    have "heap ?mid ?n = []" "?n < nextAddr ?mid"
      using step(3) by (auto simp: setProp_def newObject_def)
    from step(1) [OF False this clean_tl [OF step(4)]] al
    have ih: "isFragment ?h (tl w) ?n" by simp
    have m: "matches [hd w] w" by (subst w) (simp add: matches_def)
    have np: "nodeProps (?h node) True = [[hd w]]"
      unfolding hn using c by (simp add: nodeProps_def jsKeys_single getProp_def)
    have gp: "getProp (?h node) [hd w] = Obj ?n" unfolding hn by (simp add: getProp_def)
    have "drop (length [hd w]) w = tl w" by (simp add: drop_Suc)
    with ih have "isFragment ?h (drop (length [hd w]) w) ?n" by simp
    then show ?thesis
      by (subst isFragment_unfold [OF wne]) (simp add: np m gp)
  qed
qed

lemma firstInsert_member: "clean w \<Longrightarrow> isWord (firstInsert w) w"
proof -
  assume c: "clean w"
  let ?s0 = "newTrie\<lparr> wordCount := 1, lastWord := w \<rparr>"
  have "heap ?s0 0 = []" "0 < nextAddr ?s0" by simp_all
  from addTerminal_member [OF this c] show ?thesis
    by (simp add: isWord_def firstInsert_def addTerminal_fields)
qed

text \<open>
  Claim C5, amended: \<open>insert\<close> does not validate the word. On a fresh builder every word
  without an underscore, whatever its other characters (the reserved characters of the
  packed format included), is handed to \<open>_insert\<close>, stored, and found by \<open>isWord\<close> right
  afterwards; it is recorded as \<open>lastWord\<close>.
\<close>

theorem insert_stores_unvalidated_word:
  assumes "clean w"
  shows "\<exists>s. insert_word fuel w newTrie = Some s \<and> isWord s w \<and> lastWord s = w"
proof -
  have "insert_word fuel w newTrie = Some (firstInsert w)" by (rule firstInsert_eq)
  moreover have "isWord (firstInsert w) w" using assms by (rule firstInsert_member)
  moreover have "lastWord (firstInsert w) = w" by (simp add: firstInsert_def addTerminal_fields)
  ultimately show ?thesis by blast
qed

theorem insert_stores_unvalidated_word_witness:
  "clean ''a;,!'' \<and> (\<exists>s. insert_word 0 ''a;,!'' newTrie = Some s \<and> isWord s ''a;,!'' \<and> lastWord s = ''a;,!'')"
proof -
  have c: "clean ''a;,!''" by (simp add: clean_def)
  from insert_stores_unvalidated_word [OF c, of 0] c show ?thesis by blast
qed

section \<open>The node that is frozen\<close>

lemma firstDivergence_Some:
  "firstDivergence xs ys = Some x \<longleftrightarrow>
     (\<exists>pre rest. xs = pre @ x # rest \<and> take (length pre) ys = pre \<and>
                 (length ys = length pre \<or> ys ! length pre \<noteq> x))"
proof (induction xs ys rule: firstDivergence.induct)
  case (1 ys)
  show ?case by simp
next
  case (2 x' xs)
  show ?case
  proof
    assume "firstDivergence (x' # xs) [] = Some x"
    then have "x' # xs = [] @ x # xs \<and> take (length ([]::'a list)) [] = [] \<and> length ([]::'a list) = length ([]::'a list)"
      by simp
    then show "\<exists>pre rest. x' # xs = pre @ x # rest \<and> take (length pre) [] = pre \<and>
                 (length ([]::'a list) = length pre \<or> [] ! length pre \<noteq> x)" by blast
  next
    assume "\<exists>pre rest. x' # xs = pre @ x # rest \<and> take (length pre) [] = pre \<and>
                 (length ([]::'a list) = length pre \<or> [] ! length pre \<noteq> x)"
    then obtain pre rest where "x' # xs = pre @ x # rest" "pre = []" by auto
    then show "firstDivergence (x' # xs) [] = Some x" by simp
  qed
next
  case (3 x' xs y ys)
  show ?case
  proof (cases "x' = y")
    case True
    have "(\<exists>pre rest. x' # xs = pre @ x # rest \<and> take (length pre) (y # ys) = pre \<and>
                 (length (y # ys) = length pre \<or> (y # ys) ! length pre \<noteq> x)) \<longleftrightarrow>
          (\<exists>pre rest. xs = pre @ x # rest \<and> take (length pre) ys = pre \<and>
                 (length ys = length pre \<or> ys ! length pre \<noteq> x))" (is "?L \<longleftrightarrow> ?R")
    proof
      assume ?L
      then obtain pre rest where a: "x' # xs = pre @ x # rest" "take (length pre) (y # ys) = pre"
        "length (y # ys) = length pre \<or> (y # ys) ! length pre \<noteq> x" by blast
      show ?R
      proof (cases pre)
        case Nil
        with a True show ?thesis by auto
      next
        case (Cons z pre')
        with a have "xs = pre' @ x # rest \<and> take (length pre') ys = pre' \<and>
                     (length ys = length pre' \<or> ys ! length pre' \<noteq> x)" by auto
        then show ?thesis by blast
      qed
    next
      assume ?R
      then obtain pre rest where a: "xs = pre @ x # rest" "take (length pre) ys = pre"
        "length ys = length pre \<or> ys ! length pre \<noteq> x" by blast
      with True have "x' # xs = (y # pre) @ x # rest \<and> take (length (y # pre)) (y # ys) = y # pre \<and>
                 (length (y # ys) = length (y # pre) \<or> (y # ys) ! length (y # pre) \<noteq> x)" by auto
      then show ?L by blast
    qed
    with 3 True show ?thesis by simp
  next
    case False
    have "(\<exists>pre rest. x' # xs = pre @ x # rest \<and> take (length pre) (y # ys) = pre \<and>
                 (length (y # ys) = length pre \<or> (y # ys) ! length pre \<noteq> x)) \<longleftrightarrow> x = x'" (is "?L \<longleftrightarrow> _")
    proof
      assume ?L
      then obtain pre rest where a: "x' # xs = pre @ x # rest" "take (length pre) (y # ys) = pre" by blast
      show "x = x'"
      proof (cases pre)
        case Nil
        with a show ?thesis by simp
      next
        case (Cons z pre')
        with a False show ?thesis by auto
      qed
    next
      assume "x = x'"
      with False have "x' # xs = [] @ x # xs \<and> take (length ([]::'a list)) (y # ys) = [] \<and>
                 (length (y # ys) = length ([]::'a list) \<or> (y # ys) ! length ([]::'a list) \<noteq> x)" by auto
      then show ?L by blast
    qed
    with False show ?thesis by auto
  qed
qed




section \<open>Why the words must not contain an underscore\<close>

text \<open>
  After building from \<open>_a\<close> the root holds the child under the name \<open>_\<close>, which
  \<open>countDegree\<close> does not follow: the in-degree fields add up to 1 and there is one edge.
\<close>

lemma underscore_edge_not_counted:
  "(case insertWords 0 [''_a''] newTrie of
      None \<Rightarrow> False
    | Some s \<Rightarrow>
       (case beforeCollapse (Suc (Suc 0)) s of
          None \<Rightarrow> False
        | Some s3 \<Rightarrow> allDegreeSum (heap s3) (root s3) = 1 \<and> allEdgeCount (heap s3) (root s3) = 1))"
proof -
  let ?o0 = "[(''_'', Obj (Suc 0)), (''_c'', Num (Suc 0)), (''_d'', Num (Suc 0)), (''_v'', Num (Suc 0))]"
  let ?o1 = "[(''a'', Num (Suc 0))]"
  let ?h = "mkHeap [?o0, ?o1]"
  have c0: "allChildren ?o0 = [Suc 0]" by (simp add: allChildren_def targets_def ev_obj)
  have c1: "allChildren ?o1 = []" by (simp add: allChildren_def targets_def ev_obj)
  have c2: "allChildren [] = []" by (simp add: allChildren_def targets_def ev_obj)
  have "allChildren (?h a) = (if a = 0 then [Suc 0] else [])" for a
    using c0 c1 c2 by (cases "a = 0"; cases "a = Suc 0") (auto simp: mkHeap_def)
  then have "allEdgeRel ?h = {(0, Suc 0)}"
    by (auto simp: allEdgeRel_def split: if_splits)
  then have r: "allReachable ?h 0 = {0, Suc 0}" by (rule all_reach_one_edge)
  have d: "allDegreeSum ?h 0 = 1" "allEdgeCount ?h 0 = 1"
    by (simp_all add: allDegreeSum_def allEdgeCount_def r c0 c1 inDegree_def mkHeap_get getProp_def)
  show ?thesis
    apply (simp add: ev_build)
    apply (simp add: ev_build ev_opt)
    apply (simp add: d)
    done
qed

text \<open>
  After building from \<open>a_\<close> and \<open>ab\<close> the child under \<open>a\<close> holds the inline terminals
  \<open>_\<close> and \<open>b\<close>. \<open>nodeProps\<close> lists only \<open>b\<close>, so \<open>collapseChains\<close> fuses the child,
  and the word \<open>a_\<close> is no longer found.
\<close>

lemma underscore_entry_not_counted:
  "(case insertWords 0 [''a_'', ''ab''] newTrie of
      None \<Rightarrow> False
    | Some s \<Rightarrow>
       (case beforeCollapse (Suc (Suc 0)) s of
          None \<Rightarrow> False
        | Some s3 \<Rightarrow>
           (case collapseChainsLog (Suc (Suc 0)) (root s3) s3 of
              None \<Rightarrow> False
            | Some (s4, fused) \<Rightarrow>
                map entryNames fused = [{''_'', ''b''}] \<and> isWord s3 ''a_'' \<and> \<not> isWord s4 ''a_'')))"
proof -
  have e: "entryNames [(''_'', Num (Suc 0)), (''b'', Num (Suc 0)), (''_c'', Num (Suc 0)),
                        (''_d'', Num (Suc 0)), (''_v'', Num (Suc (Suc 0))), (''_g'', Str ''b'')] = {''_'', ''b''}"
    by (auto simp: entryNames_def bookkeeping_def)
  show ?thesis
    apply (simp add: ev_build)
    apply (simp add: ev_build ev_opt ev_query e)
    done
qed

end
